theory Spec2Isabelle
  imports Complex_Main "HOL-Library.Multiset"
begin

chapter \<open>Mini-Games-Collection: the four simulation cores\<close>

text \<open>
  A shallow embedding of the game logic of \<^verbatim>\<open>Tetris.tsx\<close>, \<^verbatim>\<open>Cards.tsx\<close>,
  \<^verbatim>\<open>Snake.tsx\<close> and \<^verbatim>\<open>Tanks.tsx\<close>. React state is passed explicitly: a handler
  or timer callback is a function from the state before to the state after. Values read
  through a \<^verbatim>\<open>useRef\<close> mirror and values written through a \<^verbatim>\<open>setState\<close> updater are
  separate record fields where the source reads one and writes the other.
  \<^verbatim>\<open>Math.random()\<close> is an explicit stream of draws.
\<close>

section \<open>JavaScript values\<close>

text \<open>Exceptions a handler can raise.\<close>

datatype js_error = TypeError | SecurityError

text \<open>
  A JavaScript number as the games use it (integers), together with the two values an
  array read or an addition can produce besides a number: \<^verbatim>\<open>undefined\<close> (a read
  past the end of an array) and \<^verbatim>\<open>NaN\<close> (arithmetic on \<^verbatim>\<open>undefined\<close>).
\<close>

datatype jsval = Num int | Undefined | NaN

text \<open>\<^verbatim>\<open>a[i]\<close>: a read past the end gives \<^verbatim>\<open>undefined\<close>.\<close>

definition js_nth :: "jsval list \<Rightarrow> nat \<Rightarrow> jsval" where
  "js_nth a i = (if i < length a then a ! i else Undefined)"

text \<open>\<^verbatim>\<open>a + b\<close> on numbers; \<^verbatim>\<open>undefined\<close> and \<^verbatim>\<open>NaN\<close> make the sum \<^verbatim>\<open>NaN\<close>.\<close>

fun js_add :: "jsval \<Rightarrow> jsval \<Rightarrow> jsval" where
  "js_add (Num a) (Num b) = Num (a + b)"
| "js_add _ _ = NaN"

text \<open>Sequencing of calls that may throw: the first exception ends the sequence.\<close>

definition bindE :: "'e + 'a \<Rightarrow> ('a \<Rightarrow> 'e + 'b) \<Rightarrow> 'e + 'b" where
  "bindE m f = (case m of Inl e \<Rightarrow> Inl e | Inr v \<Rightarrow> f v)"

text \<open>An \<open>R\<close> by \<open>C\<close> matrix: \<open>R\<close> rows, each of \<open>C\<close> cells.\<close>

definition is_matrix :: "nat \<Rightarrow> nat \<Rightarrow> 'a list list \<Rightarrow> bool" where
  "is_matrix R C m = (length m = R \<and> list_all (\<lambda>row. length row = C) m)"

text \<open>
  \<^verbatim>\<open>Math.random()\<close>: the stream \<open>rnd\<close> gives the results of the successive calls,
  \<open>rnd 0\<close> first. \<open>valid_rnd\<close> is the range the language guarantees.
\<close>

definition valid_rnd :: "(nat \<Rightarrow> real) \<Rightarrow> bool" where
  "valid_rnd rnd = (\<forall>k. 0 \<le> rnd k \<and> rnd k < 1)"

text \<open>
  The numbers of the language are IEEE 754 binary64. \<open>round64 y\<close> is the binary64
  nearest to a real \<open>y\<close> with \<open>0 \<le> y < 2 ^ 1024\<close>, ties going to the even
  significand: with \<open>2 ^ e \<le> y < 2 ^ (e + 1)\<close> the neighbours of \<open>y\<close> are
  \<open>2 ^ (e - 52)\<close> apart, and \<open>2 ^ (- 1074)\<close> apart below \<open>2 ^ (- 1022)\<close>.
  \<open>binade n y\<close> is that exponent \<open>e\<close>, found by halving or doubling at most \<open>n\<close> times.
\<close>

fun binade :: "nat \<Rightarrow> real \<Rightarrow> int" where
  "binade 0 y = 0"
| "binade (Suc n) y =
     (if y < 1 then binade n (2 * y) - 1
      else if 2 \<le> y then binade n (y / 2) + 1
      else 0)"

definition pow2 :: "int \<Rightarrow> real" where
  "pow2 e = (if 0 \<le> e then 2 ^ nat e else 1 / 2 ^ nat (- e))"

definition round_even :: "real \<Rightarrow> int" where
  "round_even q =
     (let f = \<lfloor>q\<rfloor>; r = q - of_int f
      in if r < 1 / 2 then f else if 1 / 2 < r then f + 1 else if even f then f else f + 1)"

definition round64 :: "real \<Rightarrow> real" where
  "round64 y =
     (if y = 0 then 0
      else (let u = pow2 (max (binade 1100 y) (- 1022) - 52)
            in of_int (round_even (y / u)) * u))"

text \<open>\<^verbatim>\<open>a * b\<close> on two numbers: the exact product, rounded.\<close>

definition js_mul :: "real \<Rightarrow> real \<Rightarrow> real" where
  "js_mul a b = round64 (a * b)"

definition is_double :: "real \<Rightarrow> bool" where
  "is_double x = (round64 x = x)"

text \<open>\<^verbatim>\<open>Math.random()\<close> as the language has it: every result is a binary64 in \<open>[0, 1)\<close>.\<close>

definition math_random :: "(nat \<Rightarrow> real) \<Rightarrow> bool" where
  "math_random rnd = (\<forall>k. 0 \<le> rnd k \<and> rnd k < 1 \<and> is_double (rnd k))"

section \<open>Tetris: definitions\<close>

text \<open>\<^verbatim>\<open>type PieceShape = number[][]\<close>; \<^verbatim>\<open>type TetrisCell = number\<close>.\<close>

type_synonym PieceShape = "jsval list list"

type_synonym TetrisCell = int

type_synonym Board = "TetrisCell list list"

definition COLS :: nat where
  "COLS = 10"

definition ROWS :: nat where
  "ROWS = 20"

text \<open>The seven shapes, in the source's order: I, O, T, S, Z, J, L.\<close>

definition SHAPES :: "PieceShape list" where
  "SHAPES = map (map (map Num))
     [ [[1, 1, 1, 1]],
       [[1, 1], [1, 1]],
       [[0, 1, 0], [1, 1, 1]],
       [[0, 1, 1], [1, 1, 0]],
       [[1, 1, 0], [0, 1, 1]],
       [[1, 0, 0], [1, 1, 1]],
       [[0, 0, 1], [1, 1, 1]] ]"

text \<open>
  \<^verbatim>\<open>rotate\<close> (Tetris.tsx, lines 216-226). The body of the inner loop is
  \<^verbatim>\<open>res[c][rows - 1 - r] = shape[r][c]\<close>; the two loops are folds over the index
  ranges. \<^verbatim>\<open>shape[0].length\<close> throws on an empty shape; a row shorter than row 0
  is read past its end.
\<close>

definition rotate_cell :: "PieceShape \<Rightarrow> nat \<Rightarrow> nat \<Rightarrow> nat \<Rightarrow> PieceShape \<Rightarrow> PieceShape" where
  "rotate_cell shape rows r c res = res[c := (res ! c)[rows - 1 - r := js_nth (shape ! r) c]]"

definition rotate_shape :: "PieceShape \<Rightarrow> js_error + PieceShape" where
  "rotate_shape shape =
     (case shape of
        [] \<Rightarrow> Inl TypeError
      | row0 # _ \<Rightarrow>
          (let rows = length shape;
               cols = length row0;
               res = replicate cols (replicate rows (Num 0))
           in Inr (fold (\<lambda>r. fold (\<lambda>c. rotate_cell shape rows r c) [0..<cols]) [0..<rows] res)))"

text \<open>\<^verbatim>\<open>rotate(rotate(rotate(rotate(shape))))\<close>.\<close>

definition rotate4 :: "PieceShape \<Rightarrow> js_error + PieceShape" where
  "rotate4 shape = bindE (bindE (bindE (rotate_shape shape) rotate_shape) rotate_shape) rotate_shape"

text \<open>
  The clockwise quarter turn as a formula, for comparison with the loops: cell
  \<open>(c, k)\<close> of the result is cell \<open>(R - 1 - k, c)\<close> of the \<open>R\<close> by \<open>C\<close> argument.
\<close>

definition quarter_turn :: "nat \<Rightarrow> nat \<Rightarrow> PieceShape \<Rightarrow> PieceShape" where
  "quarter_turn R C shape = map (\<lambda>c. map (\<lambda>k. shape ! (R - 1 - k) ! c) [0..<R]) [0..<C]"

text \<open>The occupied cells of a shape: \<^verbatim>\<open>!shape[r][c]\<close> is false.\<close>

fun truthy :: "jsval \<Rightarrow> bool" where
  "truthy (Num n) = (n \<noteq> 0)"
| "truthy Undefined = False"
| "truthy NaN = False"

definition cells :: "PieceShape \<Rightarrow> (nat \<times> nat) set" where
  "cells shape = {(r, c). r < length shape \<and> c < length (shape ! r) \<and> truthy (shape ! r ! c)}"

text \<open>
  \<^verbatim>\<open>clearLines\<close> (lines 271-282). The filter callback counts the full rows as it
  drops them; the \<^verbatim>\<open>while\<close> loop puts empty rows in front until there are
  \<^verbatim>\<open>ROWS\<close> rows.
\<close>

definition full_row :: "TetrisCell list \<Rightarrow> bool" where
  "full_row row = list_all (\<lambda>v. v \<noteq> 0) row"

definition clearLines_filter :: "Board \<Rightarrow> Board \<times> nat" where
  "clearLines_filter b =
     fold (\<lambda>row (newBoard, linesCleared).
             if full_row row then (newBoard, linesCleared + 1)
             else (newBoard @ [row], linesCleared))
          b ([], 0)"

function backfill :: "Board \<Rightarrow> Board" where
  "backfill newBoard =
     (if length newBoard < ROWS then backfill (replicate COLS 0 # newBoard) else newBoard)"
  by pat_completeness auto
termination
  by (relation "measure (\<lambda>newBoard. ROWS - length newBoard)") auto

declare backfill.simps [simp del]

definition clearLines :: "Board \<Rightarrow> Board \<times> nat" where
  "clearLines b =
     (case clearLines_filter b of (newBoard, linesCleared) \<Rightarrow> (backfill newBoard, linesCleared))"

text \<open>\<^verbatim>\<open>interface TetrisStats { score; lines; level }\<close>.\<close>

record TetrisStats =
  stat_score :: jsval
  stat_lines :: nat
  stat_level :: nat

text \<open>
  \<^verbatim>\<open>addScoreAndLevel\<close> (lines 287-297). \<^verbatim>\<open>pointsPerLines[lines]\<close> is a read past
  the end for more than four lines.
\<close>

definition pointsPerLines :: "jsval list" where
  "pointsPerLines = [Num 0, Num 100, Num 300, Num 500, Num 800]"

definition addScoreAndLevel :: "nat \<Rightarrow> TetrisStats \<Rightarrow> TetrisStats" where
  "addScoreAndLevel lines s =
     (if lines = 0 then s
      else (let newLines = stat_lines s + lines;
                newScore = js_add (stat_score s) (js_nth pointsPerLines lines);
                newLevel = min 10 (1 + newLines div 10)
            in \<lparr>stat_score = newScore, stat_lines = newLines, stat_level = newLevel\<rparr>))"

text \<open>
  What \<^verbatim>\<open>tick\<close> (lines 348-351) and the hard drop (lines 442-445) do with the merged
  board when a piece locks:
  \<^verbatim>\<open>const { board: cleared, linesCleared } = clearLines(merged);
  if (linesCleared) addScoreAndLevel(linesCleared)\<close>.
\<close>

definition lockClear :: "Board \<Rightarrow> TetrisStats \<Rightarrow> Board \<times> TetrisStats" where
  "lockClear merged s =
     (case clearLines merged of
        (cleared, linesCleared) \<Rightarrow>
          (cleared, if linesCleared \<noteq> 0 then addScoreAndLevel linesCleared s else s))"

section \<open>Snake: definitions\<close>

datatype GameDir = Up | Down | Left | Right

datatype GameStatus = Idle | Countdown | Running | Paused | Ended

text \<open>\<^verbatim>\<open>interface Point { x: number; y: number }\<close>.\<close>

record Point =
  px :: int
  py :: int

text \<open>\<^verbatim>\<open>const GRID = 18\<close> (Snake.tsx).\<close>

definition GRID_snake :: int where
  "GRID_snake = 18"

definition delta :: "GameDir \<Rightarrow> Point" where
  "delta d =
     (if d = Up then \<lparr>px = 0, py = -1\<rparr>
      else if d = Down then \<lparr>px = 0, py = 1\<rparr>
      else if d = Left then \<lparr>px = -1, py = 0\<rparr>
      else \<lparr>px = 1, py = 0\<rparr>)"

text \<open>
  The key \<^verbatim>\<open>`${p.x},${p.y}`\<close> of a point in the \<^verbatim>\<open>Set<string>\<close> of occupied
  cells. On integer coordinates the string determines the pair and the pair the string,
  so the pair stands for the key.
\<close>

definition cellKey :: "Point \<Rightarrow> int \<times> int" where
  "cellKey p = (px p, py p)"

text \<open>
  \<^verbatim>\<open>randomFood\<close> (lines 54-61): \<^verbatim>\<open>while (true)\<close> with a return inside. The loop
  has no bound, so the function is partial: \<open>None\<close> is the loop that never returns.
  Each round takes two draws, and a coordinate is \<^verbatim>\<open>Math.floor(Math.random() * GRID)\<close>:
  the floor of the rounded product.
\<close>

partial_function (option) randomFood :: "(nat \<Rightarrow> real) \<Rightarrow> (int \<times> int) set \<Rightarrow> Point option" where
  "randomFood rnd used =
     (let x = \<lfloor>js_mul (rnd 0) (real_of_int GRID_snake)\<rfloor>;
          y = \<lfloor>js_mul (rnd 1) (real_of_int GRID_snake)\<rfloor>
      in if (x, y) \<notin> used then Some \<lparr>px = x, py = y\<rparr>
         else randomFood (\<lambda>k. rnd (k + 2)) used)"

text \<open>The cell proposed in round \<open>k\<close> of the loop (rounds count from 0).\<close>

definition drawnCell :: "(nat \<Rightarrow> real) \<Rightarrow> nat \<Rightarrow> Point" where
  "drawnCell rnd k =
     \<lparr>px = \<lfloor>js_mul (rnd (2 * k)) (real_of_int GRID_snake)\<rfloor>,
      py = \<lfloor>js_mul (rnd (2 * k + 1)) (real_of_int GRID_snake)\<rfloor>\<rparr>"

text \<open>
  The state of \<^verbatim>\<open>SnakePage\<close> that the simulation reads and writes. \<^verbatim>\<open>dirRef.current\<close>
  is a mirror of \<^verbatim>\<open>dir\<close> that an effect brings up to date after every render, and no
  handler reads it after writing \<^verbatim>\<open>dir\<close>; the field \<open>dir\<close> stands for both. The
  cosmetic state (food kind, pulses, head pulse) is left out.
\<close>

record SnakeState =
  status :: GameStatus
  dir :: GameDir
  snake :: "Point list"
  food :: Point
  score :: int
  countdown :: int

definition initialSnake :: "Point list" where
  "initialSnake = [\<lparr>px = 3, py = 3\<rparr>, \<lparr>px = 2, py = 3\<rparr>, \<lparr>px = 1, py = 3\<rparr>]"

text \<open>
  The callback of the main-loop interval (lines 254-289), the updater passed to
  \<^verbatim>\<open>setSnake\<close> with the \<^verbatim>\<open>setStatus\<close>, \<^verbatim>\<open>setScore\<close> and \<^verbatim>\<open>setFood\<close> calls it makes.
  \<^verbatim>\<open>prev[0]\<close> of an empty snake is \<^verbatim>\<open>undefined\<close> and \<^verbatim>\<open>head.x\<close> throws. The result is
  \<open>None\<close> when \<^verbatim>\<open>randomFood\<close> does not return.
\<close>

definition tick :: "(nat \<Rightarrow> real) \<Rightarrow> SnakeState \<Rightarrow> (js_error + SnakeState) option" where
  "tick rnd st =
     (case snake st of
        [] \<Rightarrow> Some (Inl TypeError)
      | head # _ \<Rightarrow>
          (let prev = snake st;
               d = delta (dir st);
               nx = px head + px d;
               ny = py head + py d
           in if nx < 0 \<or> nx \<ge> GRID_snake \<or> ny < 0 \<or> ny \<ge> GRID_snake
                 \<or> list_ex (\<lambda>p. px p = nx \<and> py p = ny) prev
              then Some (Inr (st\<lparr>status := Ended\<rparr>))
              else (let next = \<lparr>px = nx, py = ny\<rparr> # prev
                    in if nx = px (food st) \<and> ny = py (food st)
                       then (case randomFood rnd (set (map cellKey next)) of
                               None \<Rightarrow> None
                             | Some f \<Rightarrow>
                                 Some (Inr (st\<lparr>snake := next, score := score st + 10, food := f\<rparr>)))
                       else Some (Inr (st\<lparr>snake := butlast next\<rparr>)))))"

text \<open>\<^verbatim>\<open>beginCountdown\<close>, \<^verbatim>\<open>startRun\<close> and \<^verbatim>\<open>reset\<close> (lines 152-175).\<close>

definition beginCountdown :: "SnakeState \<Rightarrow> SnakeState" where
  "beginCountdown st = st\<lparr>countdown := 3, status := Countdown\<rparr>"

definition startRun :: "SnakeState \<Rightarrow> SnakeState" where
  "startRun st = st\<lparr>status := Running\<rparr>"

definition reset_snake :: "(nat \<Rightarrow> real) \<Rightarrow> SnakeState \<Rightarrow> SnakeState option" where
  "reset_snake rnd st =
     (case randomFood rnd (set (map cellKey initialSnake)) of
        None \<Rightarrow> None
      | Some f \<Rightarrow>
          Some (st\<lparr>snake := initialSnake, dir := Right, score := 0, food := f, status := Idle\<rparr>))"

text \<open>The state at mount: the \<^verbatim>\<open>useState\<close> initial values (lines 118-128).\<close>

definition mount_snake :: "(nat \<Rightarrow> real) \<Rightarrow> SnakeState option" where
  "mount_snake rnd =
     (case randomFood rnd (set (map cellKey initialSnake)) of
        None \<Rightarrow> None
      | Some f \<Rightarrow>
          Some \<lparr>status = Idle, dir = Right, snake = initialSnake, food = f, score = 0,
                countdown = 3\<rparr>)"

text \<open>
  The callback of the countdown interval (lines 222-236): one step per second, and
  \<^verbatim>\<open>startRun\<close> when the count reaches zero.
\<close>

definition countdownStep :: "SnakeState \<Rightarrow> SnakeState" where
  "countdownStep st =
     (let next = countdown st - 1
      in if next \<ge> 1 then st\<lparr>countdown := next\<rparr>
         else startRun (st\<lparr>countdown := 0\<rparr>))"

text \<open>
  The direction rule shared by \<^verbatim>\<open>onKeyDown\<close> (lines 197-204) and \<^verbatim>\<open>handleTapDir\<close>
  (lines 323-329): a turn is taken unless it is the reverse of \<^verbatim>\<open>dirRef.current\<close>.
\<close>

definition steer :: "GameDir \<Rightarrow> SnakeState \<Rightarrow> SnakeState" where
  "steer d st =
     (if d = Up \<and> dir st \<noteq> Down then st\<lparr>dir := Up\<rparr>
      else if d = Down \<and> dir st \<noteq> Up then st\<lparr>dir := Down\<rparr>
      else if d = Left \<and> dir st \<noteq> Right then st\<lparr>dir := Left\<rparr>
      else if d = Right \<and> dir st \<noteq> Left then st\<lparr>dir := Right\<rparr>
      else st)"

definition togglePause :: "SnakeState \<Rightarrow> SnakeState" where
  "togglePause st =
     st\<lparr>status := (if status st = Paused then Running
                    else if status st = Running then Paused else status st)\<rparr>"

text \<open>The direction a key stands for, if any.\<close>

definition keyDir :: "string \<Rightarrow> GameDir option" where
  "keyDir key =
     (if key = ''ArrowUp'' \<or> key = ''w'' \<or> key = ''W'' then Some Up
      else if key = ''ArrowDown'' \<or> key = ''s'' \<or> key = ''S'' then Some Down
      else if key = ''ArrowLeft'' \<or> key = ''a'' \<or> key = ''A'' then Some Left
      else if key = ''ArrowRight'' \<or> key = ''d'' \<or> key = ''D'' then Some Right
      else None)"

text \<open>\<^verbatim>\<open>onKeyDown\<close> (lines 178-205).\<close>

definition onKeyDown :: "string \<Rightarrow> SnakeState \<Rightarrow> SnakeState" where
  "onKeyDown key st =
     (if status st = Idle then
        (if key = '' '' \<or> key = ''Enter'' then beginCountdown st else st)
      else if status st = Countdown then st
      else if key = '' '' then togglePause st
      else if status st \<noteq> Running then st
      else (case keyDir key of None \<Rightarrow> st | Some d \<Rightarrow> steer d st))"

text \<open>\<^verbatim>\<open>handleTapDir\<close> (lines 323-329) and the start/pause button (lines 141-145).\<close>

definition handleTapDir :: "GameDir \<Rightarrow> SnakeState \<Rightarrow> SnakeState" where
  "handleTapDir d st = (if status st \<noteq> Running then st else steer d st)"

definition pauseButton :: "SnakeState \<Rightarrow> SnakeState" where
  "pauseButton st =
     (if status st = Idle then beginCountdown st
      else if status st = Running then st\<lparr>status := Paused\<rparr>
      else if status st = Paused then st\<lparr>status := Running\<rparr>
      else st)"

text \<open>
  The states the page can be in: the mounted state, and what the handlers and the two
  timers make of a state. The main-loop interval exists only while the status is
  \<^verbatim>\<open>running\<close>, the countdown interval only during the countdown.
\<close>

inductive snake_reachable :: "SnakeState \<Rightarrow> bool" where
  mounted: "math_random rnd \<Longrightarrow> mount_snake rnd = Some st \<Longrightarrow> snake_reachable st"
| ticked: "snake_reachable st \<Longrightarrow> status st = Running \<Longrightarrow> math_random rnd \<Longrightarrow>
           tick rnd st = Some (Inr st') \<Longrightarrow> snake_reachable st'"
| counted: "snake_reachable st \<Longrightarrow> status st = Countdown \<Longrightarrow> snake_reachable (countdownStep st)"
| key: "snake_reachable st \<Longrightarrow> snake_reachable (onKeyDown k st)"
| tap: "snake_reachable st \<Longrightarrow> snake_reachable (handleTapDir d st)"
| tapPause: "snake_reachable st \<Longrightarrow> snake_reachable (togglePause st)"
| button: "snake_reachable st \<Longrightarrow> snake_reachable (pauseButton st)"
| startButton: "snake_reachable st \<Longrightarrow> status st = Idle \<Longrightarrow> snake_reachable (beginCountdown st)"
| resetButton: "snake_reachable st \<Longrightarrow> math_random rnd \<Longrightarrow> reset_snake rnd st = Some st' \<Longrightarrow>
           snake_reachable st'"
| again: "snake_reachable st \<Longrightarrow> status st = Ended \<Longrightarrow> math_random rnd \<Longrightarrow>
           reset_snake rnd st = Some st' \<Longrightarrow> snake_reachable (beginCountdown st')"

text \<open>In the grid: both coordinates in \<open>0 .. GRID - 1\<close>.\<close>

definition in_grid :: "Point \<Rightarrow> bool" where
  "in_grid p = (0 \<le> px p \<and> px p < GRID_snake \<and> 0 \<le> py p \<and> py p < GRID_snake)"

text \<open>The cell the head moves to in the next tick.\<close>

definition nextHead :: "SnakeState \<Rightarrow> Point" where
  "nextHead st =
     \<lparr>px = px (hd (snake st)) + px (delta (dir st)),
      py = py (hd (snake st)) + py (delta (dir st))\<rparr>"

text \<open>
  The invariant of the simulation: the snake has a head, its segments are distinct cells
  of the grid, and the food is a cell of the grid that is not on the snake.
\<close>

definition snake_inv :: "SnakeState \<Rightarrow> bool" where
  "snake_inv st =
     (snake st \<noteq> [] \<and> distinct (snake st) \<and> list_all in_grid (snake st)
      \<and> in_grid (food st) \<and> food st \<notin> set (snake st))"

text \<open>
  The state when the countdown after mounting has run out, with the first food at \<open>f\<close>.
\<close>

definition startedWith :: "Point \<Rightarrow> SnakeState" where
  "startedWith f =
     \<lparr>status = Running, dir = Right, snake = initialSnake, food = f, score = 0, countdown = 0\<rparr>"

text \<open>
  A snake that fills the grid but for one cell: the rows are walked alternately left to
  right and right to left from \<open>(0, 0)\<close>, the last cell \<open>(0, 17)\<close> of the walk holds
  the food, and the head is next to it at \<open>(1, 17)\<close>, heading left.
\<close>

definition gridRow :: "int \<Rightarrow> Point list" where
  "gridRow j = map (\<lambda>i. \<lparr>px = i, py = j\<rparr>) (if even j then [0..17] else rev [0..17])"

definition gridWalk :: "Point list" where
  "gridWalk = concat (map gridRow [0..17])"

definition fullState :: SnakeState where
  "fullState =
     \<lparr>status = Running, dir = Left, snake = tl (rev gridWalk), food = hd (rev gridWalk),
      score = 3200, countdown = 0\<rparr>"

section \<open>Cards: definitions\<close>

text \<open>\<^verbatim>\<open>interface CardItem { id; value; matched; flipped }\<close> (Cards.tsx).\<close>

record CardItem =
  card_id :: nat
  card_value :: nat
  matched :: bool
  flipped :: bool

text \<open>
  \<^verbatim>\<open>shuffle\<close> (lines 31-38), Fisher-Yates on a copy. The loop runs \<open>i\<close> from
  \<^verbatim>\<open>a.length - 1\<close> down to 1; each round draws \<^verbatim>\<open>j = Math.floor(Math.random() * (i + 1))\<close>
  and swaps \<^verbatim>\<open>a[i]\<close> and \<^verbatim>\<open>a[j]\<close>. A draw in the range of \<^verbatim>\<open>Math.random()\<close> gives
  \<open>j \<le> i\<close>, an index of the array.
\<close>

fun shuffle_loop :: "(nat \<Rightarrow> real) \<Rightarrow> nat \<Rightarrow> 'a list \<Rightarrow> 'a list" where
  "shuffle_loop rnd 0 a = a"
| "shuffle_loop rnd (Suc i) a =
     (let j = nat \<lfloor>rnd 0 * real (Suc i + 1)\<rfloor>
      in shuffle_loop (\<lambda>k. rnd (k + 1)) i (a[Suc i := a ! j, j := a ! Suc i]))"

definition shuffle :: "(nat \<Rightarrow> real) \<Rightarrow> 'a list \<Rightarrow> 'a list" where
  "shuffle rnd arr = shuffle_loop rnd (length arr - 1) arr"

text \<open>\<^verbatim>\<open>makeDeckFor\<close> (lines 118-127); \<open>pairCount\<close> is its parameter \<^verbatim>\<open>count\<close>.\<close>

definition makeDeckFor :: "nat \<Rightarrow> (nat \<Rightarrow> real) \<Rightarrow> CardItem list" where
  "makeDeckFor pairCount rnd =
     (let base = map (\<lambda>i. i + 1) [0..<pairCount]
      in map (\<lambda>(idx, v). \<lparr>card_id = idx + 1, card_value = v, matched = False, flipped = False\<rparr>)
             (enumerate 0 (shuffle rnd (base @ base))))"

text \<open>
  The state of \<^verbatim>\<open>CardsPage\<close> that the game logic reads and writes. \<open>busyRef\<close> is
  \<^verbatim>\<open>busyRef.current\<close>, \<open>lastPairRef\<close> is \<^verbatim>\<open>lastPairRef.current\<close> (the key of the pair
  already handled), and \<open>timerRef\<close> is the pending resolution timeout with the values
  its closure holds: \<^verbatim>\<open>id1\<close>, \<^verbatim>\<open>id2\<close> and \<^verbatim>\<open>isMatch\<close>.
\<close>

record CardsState =
  deck :: "CardItem list"
  busy :: bool
  busyRef :: bool
  moves :: nat
  running :: bool
  pairs :: nat
  lastPairRef :: "(nat \<times> nat) option"
  timerRef :: "(nat \<times> nat \<times> bool) option"

text \<open>\<^verbatim>\<open>setBusyState\<close> (lines 109-112).\<close>

definition setBusyState :: "bool \<Rightarrow> CardsState \<Rightarrow> CardsState" where
  "setBusyState v st = st\<lparr>busyRef := v, busy := v\<rparr>"

text \<open>\<^verbatim>\<open>deck.filter((c) => c.flipped && !c.matched)\<close> (lines 163 and 193).\<close>

definition flippedNow :: "CardItem list \<Rightarrow> CardItem list" where
  "flippedNow d = filter (\<lambda>c. flipped c \<and> \<not> matched c) d"

text \<open>
  The updater that \<^verbatim>\<open>handleFlip\<close> passes to \<^verbatim>\<open>setDeck\<close> (lines 185-199), run on the deck
  \<open>prev\<close>. The first component is \<open>None\<close> when the updater returns \<^verbatim>\<open>prev\<close> itself and
  the new deck otherwise; the second is the state after the call of
  \<^verbatim>\<open>setBusyState(true)\<close> that the updater makes when its deck has two unmatched cards
  face up.
\<close>

definition flipUpdater :: "nat \<Rightarrow> CardItem list \<Rightarrow> CardsState \<Rightarrow> CardItem list option \<times> CardsState" where
  "flipUpdater i prev st =
     (case find (\<lambda>c. card_id c = i) prev of
        None \<Rightarrow> (None, st)
      | Some target \<Rightarrow>
          if flipped target \<or> matched target then (None, st)
          else (let next = map (\<lambda>c. if card_id c = i then c\<lparr>flipped := True\<rparr> else c) prev
                in (Some next,
                    if length (flippedNow next) = 2 then setBusyState True st else st)))"

text \<open>
  The page between two renders. \<open>view\<close> holds the state of the last render and the refs
  as they are now; \<open>deckQueue\<close> holds the updates of \<^verbatim>\<open>deck\<close> that wait for the next
  render: a deck already computed, or the updater of a flip that has not run yet.
  \<^verbatim>\<open>setBusyState\<close> writes \<open>busy\<close> together with \<open>busyRef\<close>; a flip only ever sets the
  two, and the guard of \<^verbatim>\<open>handleFlip\<close> reads them together, so that it makes no
  difference to a flip that \<^verbatim>\<open>busy\<close> itself changes at the render.
\<close>

datatype DeckUpdate = Computed "CardItem list" | FlipOf nat

record CardsPage =
  view :: CardsState
  deckQueue :: "DeckUpdate list"

text \<open>
  \<^verbatim>\<open>setDeck(updater)\<close> for the updater of a flip. React calls an updater during the next
  render; when no update of the component is pending it may call it at once and queue
  the result, or drop the update when the updater returns the state itself. \<open>eager\<close>
  says whether it does so for this call.
\<close>

definition setDeckFlip :: "bool \<Rightarrow> nat \<Rightarrow> CardsPage \<Rightarrow> CardsPage" where
  "setDeckFlip eager i pg =
     (if eager \<and> deckQueue pg = [] then
        (case flipUpdater i (deck (view pg)) (view pg) of
           (None, st) \<Rightarrow> pg\<lparr>view := st\<rparr>
         | (Some next, st) \<Rightarrow> pg\<lparr>view := st, deckQueue := [Computed next]\<rparr>)
      else pg\<lparr>deckQueue := deckQueue pg @ [FlipOf i]\<rparr>)"

text \<open>
  \<^verbatim>\<open>handleFlip\<close> (lines 182-201): the guard reads \<^verbatim>\<open>busyRef.current\<close> and the \<^verbatim>\<open>busy\<close>
  and \<^verbatim>\<open>running\<close> of the last render, and the rest is the call of \<^verbatim>\<open>setDeck\<close>. The lock
  is written by the updater, when the updater runs.
\<close>

definition handleFlip :: "bool \<Rightarrow> nat \<Rightarrow> CardsPage \<Rightarrow> CardsPage" where
  "handleFlip eager i pg =
     (if busyRef (view pg) \<or> busy (view pg) \<or> \<not> running (view pg) then pg
      else setDeckFlip eager i pg)"

text \<open>The render: the queued updates of \<^verbatim>\<open>deck\<close> are applied in order.\<close>

fun runQueue :: "DeckUpdate list \<Rightarrow> CardsState \<Rightarrow> CardsState" where
  "runQueue [] st = st"
| "runQueue (Computed d # q) st = runQueue q (st\<lparr>deck := d\<rparr>)"
| "runQueue (FlipOf i # q) st =
     (case flipUpdater i (deck st) st of
        (None, st') \<Rightarrow> runQueue q st'
      | (Some next, st') \<Rightarrow> runQueue q (st'\<lparr>deck := next\<rparr>))"

definition render :: "CardsPage \<Rightarrow> CardsPage" where
  "render pg = \<lparr>view = runQueue (deckQueue pg) (view pg), deckQueue = []\<rparr>"

text \<open>
  One click with nothing pending, seen at the next render: the guard, and the updater
  run on the deck of the last render.
\<close>

definition flipApplied :: "nat \<Rightarrow> CardsState \<Rightarrow> CardsState" where
  "flipApplied i st =
     (if busyRef st \<or> busy st \<or> \<not> running st then st
      else (case flipUpdater i (deck st) st of
              (None, st') \<Rightarrow> st'
            | (Some next, st') \<Rightarrow> st'\<lparr>deck := next\<rparr>))"

text \<open>
  \<^verbatim>\<open>pairKey\<close> (lines 169-174): the ids of the two cards awaiting resolution, smaller
  first. The source joins them into the string \<^verbatim>\<open>`${a.id}-${b.id}`\<close> and the effect
  splits it again; on natural numbers that gives the two ids back.
\<close>

definition pairKey :: "CardItem list \<Rightarrow> (nat \<times> nat) option" where
  "pairKey d =
     (case flippedNow d of
        [a, b] \<Rightarrow> Some (if card_id a < card_id b then (card_id a, card_id b)
                        else (card_id b, card_id a))
      | _ \<Rightarrow> None)"

text \<open>
  The pair-resolution effect (lines 210-257), run after a render. \<^verbatim>\<open>deck.find(...)!\<close>
  is \<^verbatim>\<open>undefined\<close> when no card has the id, and reading \<^verbatim>\<open>.value\<close> from it throws.
\<close>

definition pairEffect :: "CardsState \<Rightarrow> js_error + CardsState" where
  "pairEffect st =
     (case pairKey (deck st) of
        None \<Rightarrow>
          (let st1 = st\<lparr>timerRef := None, lastPairRef := None\<rparr>
           in Inr (if busy st then setBusyState False st1 else st1))
      | Some (id1, id2) \<Rightarrow>
          if lastPairRef st = Some (id1, id2) then Inr st
          else (case (find (\<lambda>c. card_id c = id1) (deck st), find (\<lambda>c. card_id c = id2) (deck st)) of
                  (Some a, Some b) \<Rightarrow>
                    Inr ((setBusyState True (st\<lparr>lastPairRef := Some (id1, id2)\<rparr>))
                           \<lparr>moves := moves st + 1,
                            timerRef := Some (id1, id2, card_value a = card_value b)\<rparr>)
                | _ \<Rightarrow> Inl TypeError))"

text \<open>The updater of the timeout (lines 239-245) and the timeout itself (lines 238-248).\<close>

definition resolveCard :: "nat \<Rightarrow> nat \<Rightarrow> bool \<Rightarrow> CardItem \<Rightarrow> CardItem" where
  "resolveCard id1 id2 isMatch c =
     (if isMatch \<and> (card_id c = id1 \<or> card_id c = id2) then c\<lparr>matched := True\<rparr>
      else if \<not> isMatch \<and> (card_id c = id1 \<or> card_id c = id2) then c\<lparr>flipped := False\<rparr>
      else c)"

definition resolveTimeout :: "CardsState \<Rightarrow> CardsState" where
  "resolveTimeout st =
     (case timerRef st of
        None \<Rightarrow> st
      | Some (id1, id2, isMatch) \<Rightarrow>
          (setBusyState False (st\<lparr>deck := map (resolveCard id1 id2 isMatch) (deck st)\<rparr>))
            \<lparr>timerRef := None\<rparr>)"

text \<open>
  The win effect (lines 260-273) without its writes to the store: all cards matched
  stops the game.
\<close>

definition winEffect :: "CardsState \<Rightarrow> CardsState" where
  "winEffect st =
     (if deck st \<noteq> [] \<and> list_all matched (deck st) then st\<lparr>running := False\<rparr> else st)"

text \<open>
  \<^verbatim>\<open>reset\<close> (lines 133-148): a fresh deck for \<^verbatim>\<open>nextPairs\<close> pairs if given, for
  \<^verbatim>\<open>pairs\<close> otherwise. The difficulty selector (lines 425-429) offers 6, 8, 10 and 12
  pairs and calls \<^verbatim>\<open>setPairs(n); reset(n)\<close>.
\<close>

definition reset_cards :: "nat option \<Rightarrow> (nat \<Rightarrow> real) \<Rightarrow> CardsState \<Rightarrow> CardsState" where
  "reset_cards nextPairs rnd st =
     (let p = (case nextPairs of Some n \<Rightarrow> n | None \<Rightarrow> pairs st)
      in (setBusyState False (st\<lparr>deck := makeDeckFor p rnd, moves := 0, running := True\<rparr>))
           \<lparr>lastPairRef := None, timerRef := None\<rparr>)"

definition selectPairs :: "nat \<Rightarrow> (nat \<Rightarrow> real) \<Rightarrow> CardsState \<Rightarrow> CardsState" where
  "selectPairs n rnd st = reset_cards (Some n) rnd (st\<lparr>pairs := n\<rparr>)"

text \<open>The state before the first effect runs: the \<^verbatim>\<open>useState\<close> and \<^verbatim>\<open>useRef\<close> initial values.\<close>

definition initial_cards :: CardsState where
  "initial_cards =
     \<lparr>deck = [], busy = False, busyRef = False, moves = 0, running = False, pairs = 8,
      lastPairRef = None, timerRef = None\<rparr>"

text \<open>The effects that follow the render an event causes.\<close>

definition afterRender :: "CardsState \<Rightarrow> js_error + CardsState" where
  "afterRender st = bindE (pairEffect st) (\<lambda>st1. Inr (winEffect st1))"

text \<open>
  The calls of \<^verbatim>\<open>handleFlip\<close> made before the next render, each with the choice React
  makes for it, then the render and its effects.
\<close>

definition clicks :: "(bool \<times> nat) list \<Rightarrow> CardsState \<Rightarrow> js_error + CardsState" where
  "clicks cs st =
     afterRender (view (render (foldl (\<lambda>pg (eager, i). handleFlip eager i pg)
                                      \<lparr>view = st, deckQueue = []\<rparr> cs)))"

text \<open>
  The states of the page when a render follows every event: the deck dealt when the
  page mounts (the effect of line 151 calls \<^verbatim>\<open>reset()\<close>), a reset by a button, a
  change of difficulty, a single click on a card, and the resolution timeout when one is
  pending; each followed by the render and the effects.
\<close>

inductive cards_reachable :: "CardsState \<Rightarrow> bool" where
  dealt: "valid_rnd rnd \<Longrightarrow> afterRender (reset_cards None rnd initial_cards) = Inr st \<Longrightarrow>
          cards_reachable st"
| redealt: "cards_reachable st \<Longrightarrow> valid_rnd rnd \<Longrightarrow>
          afterRender (reset_cards None rnd st) = Inr st' \<Longrightarrow> cards_reachable st'"
| selected: "cards_reachable st \<Longrightarrow> valid_rnd rnd \<Longrightarrow> n \<in> set [6, 8, 10, 12] \<Longrightarrow>
          afterRender (selectPairs n rnd st) = Inr st' \<Longrightarrow> cards_reachable st'"
| clicked: "cards_reachable st \<Longrightarrow> clicks [(eager, i)] st = Inr st' \<Longrightarrow>
          cards_reachable st'"
| resolved: "cards_reachable st \<Longrightarrow> timerRef st \<noteq> None \<Longrightarrow>
          afterRender (resolveTimeout st) = Inr st' \<Longrightarrow> cards_reachable st'"

text \<open>
  The invariant of the page: the ids of the deck are distinct, the two busy flags agree,
  and either at most one unmatched card is face up, nothing is pending and the lock is
  open, or exactly two are, the lock is shut and the timeout for this pair is pending.
\<close>

definition cards_inv :: "CardsState \<Rightarrow> bool" where
  "cards_inv st =
     (distinct (map card_id (deck st)) \<and> busy st = busyRef st
      \<and> (case pairKey (deck st) of
            None \<Rightarrow> length (flippedNow (deck st)) \<le> 1 \<and> \<not> busy st
                       \<and> timerRef st = None \<and> lastPairRef st = None
          | Some k \<Rightarrow> busy st \<and> lastPairRef st = Some k
                       \<and> (\<exists>m. timerRef st = Some (fst k, snd k, m))))"

text \<open>
  What holds between an event and the effects that follow it: the timeout need not be
  armed yet for a pair that has just formed.
\<close>

definition pre_effect :: "CardsState \<Rightarrow> bool" where
  "pre_effect st =
     (distinct (map card_id (deck st)) \<and> busy st = busyRef st
      \<and> (case pairKey (deck st) of
            None \<Rightarrow> length (flippedNow (deck st)) \<le> 1
          | Some k \<Rightarrow> busy st \<and> (lastPairRef st = Some k \<longrightarrow> (\<exists>m. timerRef st = Some (fst k, snd k, m)))))"


text \<open>
  The deck the page deals for eight pairs when every draw is 0, with the cards whose
  ids are in \<open>up\<close> face up and the cards whose ids are in \<open>matchedIds\<close> matched and
  face up.
\<close>

definition zeroDeal :: "nat list \<Rightarrow> nat list \<Rightarrow> CardItem list" where
  "zeroDeal up matchedIds =
     map (\<lambda>(i, v). \<lparr>card_id = i, card_value = v, matched = (i \<in> set matchedIds),
                     flipped = (i \<in> set up \<or> i \<in> set matchedIds)\<rparr>)
       [(1, 2), (2, 3), (3, 4), (4, 5), (5, 6), (6, 7), (7, 8), (8, 1),
        (9, 2), (10, 3), (11, 4), (12, 5), (13, 6), (14, 7), (15, 8), (16, 1)]"

text \<open>
  The running page with that deck, the cards of \<open>up\<close> face up, nothing matched, the lock
  open and no resolution pending.
\<close>

definition openPage :: "nat list \<Rightarrow> CardsState" where
  "openPage up =
     \<lparr>deck = zeroDeal up [], busy = False, busyRef = False, moves = 0, running = True,
      pairs = 8, lastPairRef = None, timerRef = None\<rparr>"

section \<open>Tanks: definitions\<close>

datatype CellType = Empty | Brick | Steel | Base

datatype Direction = TUp | TRight | TDown | TLeft

datatype Side = Player | Enemy

datatype PowerKind = ShieldUp | RapidUp

text \<open>
  An id is the literal \<^verbatim>\<open>'P1'\<close> or a template string of a prefix, \<^verbatim>\<open>Date.now()\<close> and
  \<^verbatim>\<open>Math.random()\<close>, such as \<^verbatim>\<open>`PU-${Date.now()}-${Math.random()}`\<close>.
\<close>

datatype ident = Literal string | Stamped string int real

record Tank =
  tank_id :: ident
  tank_x :: int
  tank_y :: int
  tank_dir :: Direction
  side :: Side
  alive :: bool

record Bullet =
  bullet_id :: ident
  bullet_x :: int
  bullet_y :: int
  bullet_dir :: Direction
  owner :: Side
  active :: bool

record PowerUp =
  pu_id :: ident
  pu_x :: int
  pu_y :: int
  kind :: PowerKind

record GameState =
  gs_score :: int
  gs_lives :: int
  gs_level :: int
  gs_kills :: int
  gs_running :: bool
  gs_paused :: bool

record PlayerPower =
  shield :: int
  rapidUntil :: int

text \<open>\<^verbatim>\<open>const GRID = 15\<close> (Tanks.tsx).\<close>

definition GRID_tanks :: int where
  "GRID_tanks = 15"

text \<open>\<^verbatim>\<open>dirDelta\<close> (lines 182-187), as the pair \<open>(dx, dy)\<close>.\<close>

definition dirDelta :: "Direction \<Rightarrow> int \<times> int" where
  "dirDelta d =
     (if d = TUp then (0, -1)
      else if d = TRight then (1, 0)
      else if d = TDown then (0, 1)
      else (-1, 0))"

text \<open>
  The terrain is an array of rows. A cell is \<open>Some c\<close>, or \<open>None\<close> for \<^verbatim>\<open>undefined\<close>: what
  a read past the end of a row gives, and what an assignment past the end of a row leaves
  in between.
\<close>

type_synonym Terrain = "CellType option list list"

text \<open>\<^verbatim>\<open>terrain[y][x]\<close>: throws when there is no row \<open>y\<close>.\<close>

definition cellAt :: "Terrain \<Rightarrow> int \<Rightarrow> int \<Rightarrow> js_error + CellType option" where
  "cellAt t x y =
     (if 0 \<le> y \<and> nat y < length t
      then Inr (if 0 \<le> x \<and> nat x < length (t ! nat y) then t ! nat y ! nat x else None)
      else Inl TypeError)"

text \<open>\<^verbatim>\<open>row[x] = v\<close> for \<open>x \<ge> 0\<close>: an assignment past the end extends the row.\<close>

definition js_put :: "'a option list \<Rightarrow> nat \<Rightarrow> 'a \<Rightarrow> 'a option list" where
  "js_put row x v =
     (if x < length row then row[x := Some v]
      else row @ replicate (x - length row) None @ [Some v])"

text \<open>
  The updater of \<^verbatim>\<open>setTerrain\<close> in \<^verbatim>\<open>damageAt\<close> (lines 577-581):
  \<^verbatim>\<open>next = prev.map(row => row.slice()); next[y][x] = 'empty'\<close>, for \<open>x, y \<ge> 0\<close>.
\<close>

definition clearCell :: "Terrain \<Rightarrow> int \<Rightarrow> int \<Rightarrow> js_error + Terrain" where
  "clearCell prev x y =
     (if nat y < length prev then Inr (prev[nat y := js_put (prev ! nat y) (nat x) Empty])
      else Inl TypeError)"

text \<open>
  The state of \<^verbatim>\<open>TanksPage\<close> that the bullet loop reads and writes. A field \<open>xRef\<close> is
  the mirror \<^verbatim>\<open>xRef.current\<close> that the code reads; the field \<open>x\<close> is the React state
  with the updaters applied that the code has passed to \<^verbatim>\<open>setX\<close> so far. An effect
  copies the state into the mirror after a render, not during a tick. \<open>random\<close> is the
  stream of \<^verbatim>\<open>Math.random()\<close> results and \<open>drawn\<close> the number of calls made, \<open>now\<close> is
  \<^verbatim>\<open>Date.now()\<close>, and \<open>respawns\<close> counts the respawn timeouts set. The sound cues are
  left out.
\<close>

record World =
  terrainRef :: Terrain
  terrain :: Terrain
  tanksRef :: "Tank list"
  tanks :: "Tank list"
  stateRef :: GameState
  state :: GameState
  powerRef :: PlayerPower
  power :: PlayerPower
  powerUps :: "PowerUp list"
  random :: "nat \<Rightarrow> real"
  drawn :: nat
  now :: int
  respawns :: nat

text \<open>\<^verbatim>\<open>Math.random()\<close>: the next draw of the stream.\<close>

definition mathRandom :: "World \<Rightarrow> real \<times> World" where
  "mathRandom w = (random w (drawn w), w\<lparr>drawn := drawn w + 1\<rparr>)"

text \<open>\<^verbatim>\<open>dropPowerUp\<close> (lines 541-547).\<close>

definition dropPowerUp :: "int \<Rightarrow> int \<Rightarrow> World \<Rightarrow> World" where
  "dropPowerUp x y w =
     (case mathRandom w of
        (r1, w1) \<Rightarrow>
          if r1 < 35 / 100
          then (case mathRandom w1 of
                  (r2, w2) \<Rightarrow>
                    (case mathRandom w2 of
                       (r3, w3) \<Rightarrow>
                         w3\<lparr>powerUps := powerUps w3 @
                              [\<lparr>pu_id = Stamped ''PU'' (now w3) r3, pu_x = x, pu_y = y,
                                kind = (if r2 < 1 / 2 then ShieldUp else RapidUp)\<rparr>]\<rparr>))
          else w1)"

text \<open>\<^verbatim>\<open>type 'blocked' | 'hit' | 'none'\<close>, the result of \<^verbatim>\<open>damageAt\<close>.\<close>

datatype Damage = Blocked | Hit | NoDamage

text \<open>\<^verbatim>\<open>tanksRef.current.findIndex(t => t.alive && t.x === x && t.y === y)\<close>.\<close>

fun findIndex :: "('a \<Rightarrow> bool) \<Rightarrow> 'a list \<Rightarrow> nat option" where
  "findIndex P [] = None"
| "findIndex P (t # ts) =
     (if P t then Some 0 else (case findIndex P ts of None \<Rightarrow> None | Some i \<Rightarrow> Some (Suc i)))"

text \<open>
  \<^verbatim>\<open>damageAt\<close> (lines 569-646). \<^verbatim>\<open>target.alive = false\<close> writes into the object held
  by \<^verbatim>\<open>tanksRef.current\<close>; the updater of \<^verbatim>\<open>setTanks\<close> marks every tank of that id.
\<close>

definition damageAt :: "int \<Rightarrow> int \<Rightarrow> Side \<Rightarrow> World \<Rightarrow> js_error + (Damage \<times> World)" where
  "damageAt x y ownr w =
     (if x < 0 \<or> x \<ge> GRID_tanks \<or> y < 0 \<or> y \<ge> GRID_tanks then Inr (Blocked, w)
      else (case cellAt (terrainRef w) x y of
              Inl e \<Rightarrow> Inl e
            | Inr cell \<Rightarrow>
                if cell = Some Steel then Inr (Blocked, w)
                else if cell = Some Brick then
                  (case clearCell (terrain w) x y of
                     Inl e \<Rightarrow> Inl e
                   | Inr next \<Rightarrow> Inr (Hit, w\<lparr>terrain := next\<rparr>))
                else if cell = Some Base then
                  Inr (Hit, w\<lparr>state := (state w)\<lparr>gs_running := False, gs_paused := False\<rparr>\<rparr>)
                else (case findIndex (\<lambda>t. alive t \<and> tank_x t = x \<and> tank_y t = y) (tanksRef w) of
                        None \<Rightarrow> Inr (NoDamage, w)
                      | Some hitIndex \<Rightarrow>
                          (let target = tanksRef w ! hitIndex
                           in if (ownr = Enemy \<and> side target = Enemy)
                                 \<or> (ownr = Player \<and> side target = Player)
                              then Inr (Blocked, w)
                              else if side target = Player \<and> shield (powerRef w) > 0
                              then Inr (Hit, w\<lparr>power := (power w)\<lparr>shield := max 0 (shield (power w) - 1)\<rparr>\<rparr>)
                              else (let w1 = w\<lparr>tanksRef := (tanksRef w)[hitIndex := target\<lparr>alive := False\<rparr>],
                                               tanks := map (\<lambda>t. if tank_id t = tank_id target
                                                                  then t\<lparr>alive := False\<rparr> else t) (tanks w)\<rparr>
                                    in if side target = Enemy
                                       then Inr (Hit, dropPowerUp x y
                                              (w1\<lparr>state := (state w1)\<lparr>gs_score := gs_score (state w1) + 100,
                                                                      gs_kills := gs_kills (state w1) + 1\<rparr>\<rparr>))
                                       else Inr (Hit,
                                              w1\<lparr>state := (state w1)\<lparr>gs_lives := max 0 (gs_lives (state w1) - 1)\<rparr>,
                                                 respawns := respawns w1 + 1\<rparr>))))))"

text \<open>
  One round of the bullet loop in \<^verbatim>\<open>tick\<close> (lines 716-728): the bullets it adds to
  \<^verbatim>\<open>next\<close>, none or one, and the world after \<^verbatim>\<open>damageAt\<close>.
\<close>

definition advanceBullet :: "Bullet \<Rightarrow> World \<Rightarrow> js_error + (Bullet list \<times> World)" where
  "advanceBullet b w =
     (if \<not> active b then Inr ([], w)
      else (case dirDelta (bullet_dir b) of
              (dx, dy) \<Rightarrow>
                (let nx = bullet_x b + dx;
                     ny = bullet_y b + dy
                 in (case damageAt nx ny (owner b) w of
                       Inl e \<Rightarrow> Inl e
                     | Inr (result, w') \<Rightarrow>
                         if result = Blocked \<or> result = Hit then Inr ([], w')
                         else Inr ([b\<lparr>bullet_x := nx, bullet_y := ny\<rparr>], w')))))"

text \<open>The whole loop, the updater of \<^verbatim>\<open>setBullets\<close> (lines 714-730).\<close>

fun advanceBullets :: "Bullet list \<Rightarrow> Bullet list \<Rightarrow> World \<Rightarrow> js_error + (Bullet list \<times> World)" where
  "advanceBullets [] next w = Inr (next, w)"
| "advanceBullets (b # prev) next w =
     (case advanceBullet b w of
        Inl e \<Rightarrow> Inl e
      | Inr (added, w') \<Rightarrow> advanceBullets prev (next @ added) w')"

text \<open>The cell a bullet moves into.\<close>

definition bulletTarget :: "Bullet \<Rightarrow> int \<times> int" where
  "bulletTarget b = (bullet_x b + fst (dirDelta (bullet_dir b)), bullet_y b + snd (dirDelta (bullet_dir b)))"

text \<open>The terrain has a row for every \<open>y\<close> of the grid.\<close>

definition has_rows :: "Terrain \<Rightarrow> bool" where
  "has_rows t = (nat GRID_tanks \<le> length t)"

text \<open>
  A world for the examples: open ground, the base at the bottom centre \<open>(7, 14)\<close> in its
  ring of bricks with the brick above it at \<open>(7, 13)\<close> already shot away, the player at
  its start cell and two enemies in column 3.
\<close>

definition exampleTerrain :: Terrain where
  "exampleTerrain =
     replicate 13 (replicate 15 (Some Empty))
     @ [replicate 6 (Some Empty) @ [Some Brick, Some Empty, Some Brick] @ replicate 6 (Some Empty),
        replicate 6 (Some Empty) @ [Some Brick, Some Base, Some Brick] @ replicate 6 (Some Empty)]"

definition exampleTanks :: "Tank list" where
  "exampleTanks =
     [\<lparr>tank_id = Literal ''P1'', tank_x = 7, tank_y = 12, tank_dir = TUp, side = Player, alive = True\<rparr>,
      \<lparr>tank_id = Stamped ''E'' 1000 (1 / 4), tank_x = 3, tank_y = 1, tank_dir = TDown, side = Enemy,
        alive = True\<rparr>,
      \<lparr>tank_id = Stamped ''E'' 2000 (3 / 4), tank_x = 3, tank_y = 4, tank_dir = TDown, side = Enemy,
        alive = True\<rparr>]"

definition exampleWorld :: World where
  "exampleWorld =
     \<lparr>terrainRef = exampleTerrain, terrain = exampleTerrain,
      tanksRef = exampleTanks, tanks = exampleTanks,
      stateRef = \<lparr>gs_score = 0, gs_lives = 3, gs_level = 1, gs_kills = 0, gs_running = True,
                  gs_paused = False\<rparr>,
      state = \<lparr>gs_score = 0, gs_lives = 3, gs_level = 1, gs_kills = 0, gs_running = True,
               gs_paused = False\<rparr>,
      powerRef = \<lparr>shield = 0, rapidUntil = 0\<rparr>, power = \<lparr>shield = 0, rapidUntil = 0\<rparr>,
      powerUps = [], random = (\<lambda>k. 1 / 2), drawn = 0, now = 3000, respawns = 0\<rparr>"

text \<open>
  A bullet of the first enemy on its way down column 3, one cell above the second enemy,
  and an enemy bullet at \<open>(7, 13)\<close> on its way down into the base.
\<close>

definition friendlyBullet :: Bullet where
  "friendlyBullet =
     \<lparr>bullet_id = Stamped ''B-E'' 2500 (1 / 8), bullet_x = 3, bullet_y = 3, bullet_dir = TDown,
      owner = Enemy, active = True\<rparr>"

definition baseBullet :: Bullet where
  "baseBullet =
     \<lparr>bullet_id = Stamped ''B-E'' 2600 (5 / 8), bullet_x = 7, bullet_y = 13, bullet_dir = TDown,
      owner = Enemy, active = True\<rparr>"

section \<open>The preference store: definitions\<close>

text \<open>
  \<^verbatim>\<open>localStorage\<close> as the pages use it: a store of strings by key, or a store the
  browser denies access to, where every call throws a \<^verbatim>\<open>SecurityError\<close>.
\<close>

datatype Storage = Denied | Store "string \<Rightarrow> string option"

definition getItem :: "Storage \<Rightarrow> string \<Rightarrow> js_error + string option" where
  "getItem s k = (case s of Denied \<Rightarrow> Inl SecurityError | Store m \<Rightarrow> Inr (m k))"

definition setItem :: "Storage \<Rightarrow> string \<Rightarrow> string \<Rightarrow> js_error + Storage" where
  "setItem s k v = (case s of Denied \<Rightarrow> Inl SecurityError | Store m \<Rightarrow> Inr (Store (m(k \<mapsto> v))))"

text \<open>\<^verbatim>\<open>String(n)\<close> for a natural number: its decimal digits.\<close>

function decimal :: "nat \<Rightarrow> string" where
  "decimal n =
     (if n < 10 then [char_of (48 + n)]
      else decimal (n div 10) @ [char_of (48 + n mod 10)])"
  by pat_completeness auto
termination
  by (relation "measure (\<lambda>n. n)") auto

declare decimal.simps [simp del]

text \<open>\<^verbatim>\<open>bestKey\<close> (Cards.tsx, line 44): \<^verbatim>\<open>`cards_best_${pairs}_${kind}`\<close>.\<close>

definition bestKey :: "nat \<Rightarrow> string \<Rightarrow> string" where
  "bestKey p knd = ''cards_best_'' @ decimal p @ ''_'' @ knd"

text \<open>
  \<^verbatim>\<open>Number(localStorage.getItem(bestKey(pairs, kind)) || 0)\<close> (lines 102-103), evaluated
  in the body of the component with nothing around it. \<^verbatim>\<open>null\<close> and the empty string
  are falsy and give 0; \<open>toNumber\<close> is \<^verbatim>\<open>Number\<close> on a string.
\<close>

definition cards_bestRead :: "(string \<Rightarrow> jsval) \<Rightarrow> Storage \<Rightarrow> nat \<Rightarrow> string \<Rightarrow> js_error + jsval" where
  "cards_bestRead toNumber s p knd =
     (case getItem s (bestKey p knd) of
        Inl e \<Rightarrow> Inl e
      | Inr None \<Rightarrow> Inr (Num 0)
      | Inr (Some v) \<Rightarrow> Inr (if v = [] then Num 0 else toNumber v))"

text \<open>The two reads of one render, \<^verbatim>\<open>bestMoves\<close> then \<^verbatim>\<open>bestSeconds\<close>.\<close>

definition cards_renderReads :: "(string \<Rightarrow> jsval) \<Rightarrow> Storage \<Rightarrow> nat \<Rightarrow> js_error + (jsval \<times> jsval)" where
  "cards_renderReads toNumber s p =
     bindE (cards_bestRead toNumber s p ''moves'')
       (\<lambda>bestMoves. bindE (cards_bestRead toNumber s p ''seconds'')
          (\<lambda>bestSeconds. Inr (bestMoves, bestSeconds)))"

text \<open>\<^verbatim>\<open>best === 0 || n < best\<close> for a count \<open>n\<close>; a comparison with \<^verbatim>\<open>NaN\<close> is false.\<close>

definition improves :: "nat \<Rightarrow> jsval \<Rightarrow> bool" where
  "improves n best = (case best of Num b \<Rightarrow> b = 0 \<or> int n < b | _ \<Rightarrow> False)"

text \<open>
  The writes of the win effect (lines 263-273), with no \<^verbatim>\<open>try\<close> around them; the result
  is the store afterwards.
\<close>

definition cards_bestWrite ::
  "Storage \<Rightarrow> nat \<Rightarrow> bool \<Rightarrow> nat \<Rightarrow> nat \<Rightarrow> jsval \<Rightarrow> jsval \<Rightarrow> js_error + Storage" where
  "cards_bestWrite s p allMatched mvs secs bestMoves bestSeconds =
     (if allMatched then
        bindE (if mvs > 0 \<and> improves mvs bestMoves
               then setItem s (bestKey p ''moves'') (decimal mvs) else Inr s)
          (\<lambda>s1. if secs > 0 \<and> improves secs bestSeconds
                 then setItem s1 (bestKey p ''seconds'') (decimal secs) else Inr s1)
      else Inr s)"

text \<open>\<^verbatim>\<open>String(b)\<close> for a boolean.\<close>

definition boolString :: "bool \<Rightarrow> string" where
  "boolString b = (if b then ''true'' else ''false'')"

text \<open>
  Tanks.tsx, the initial values of \<^verbatim>\<open>comfort\<close> (lines 355-359) and \<^verbatim>\<open>soundOn\<close> (lines
  367-371) in a browser: reads with nothing around them.
\<close>

definition tanks_comfortRead :: "Storage \<Rightarrow> js_error + bool" where
  "tanks_comfortRead s =
     (case getItem s ''tanks_comfort'' of
        Inl e \<Rightarrow> Inl e
      | Inr saved \<Rightarrow> Inr (case saved of None \<Rightarrow> True | Some v \<Rightarrow> v = ''true''))"

definition tanks_soundRead :: "Storage \<Rightarrow> js_error + bool" where
  "tanks_soundRead s =
     (case getItem s ''tanks_sound'' of
        Inl e \<Rightarrow> Inl e
      | Inr saved \<Rightarrow> Inr (saved = Some ''true''))"

text \<open>
  Tanks.tsx, the two persistence effects (lines 360-364 and 372-376):
  \<^verbatim>\<open>try { localStorage.setItem(key, String(v)) } catch {}\<close>. The result is the store
  afterwards.
\<close>

definition tanks_persist :: "Storage \<Rightarrow> string \<Rightarrow> bool \<Rightarrow> js_error + Storage" where
  "tanks_persist s k v = (case setItem s k (boolString v) of Inl e \<Rightarrow> Inr s | Inr s' \<Rightarrow> Inr s')"

definition tanks_comfortWrite :: "Storage \<Rightarrow> bool \<Rightarrow> js_error + Storage" where
  "tanks_comfortWrite s comfort = tanks_persist s ''tanks_comfort'' comfort"

definition tanks_soundWrite :: "Storage \<Rightarrow> bool \<Rightarrow> js_error + Storage" where
  "tanks_soundWrite s soundOn = tanks_persist s ''tanks_sound'' soundOn"

section \<open>Tetris: rotation\<close>

lemma rotate_inner_loop:
  assumes "length res = C" "n \<le> C"
  shows "fold (\<lambda>c. rotate_cell shape R r c) [0..<n] res
       = map (\<lambda>c. if c < n then (res ! c)[R - 1 - r := js_nth (shape ! r) c] else res ! c) [0..<C]"
  using assms(2)
proof (induction n)
  case 0
  then show ?case using assms(1) by (auto intro!: nth_equalityI)
next
  case (Suc n)
  then show ?case using assms(1)
    by (auto simp: rotate_cell_def intro!: nth_equalityI simp: nth_list_update less_Suc_eq)
qed

lemma rotate_outer_loop:
  assumes "m \<le> R"
  shows "fold (\<lambda>r. fold (\<lambda>c. rotate_cell shape R r c) [0..<C]) [0..<m] (replicate C (replicate R (Num 0)))
       = map (\<lambda>c. map (\<lambda>k. if R - 1 - k < m then js_nth (shape ! (R - 1 - k)) c else Num 0) [0..<R]) [0..<C]"
  using assms
proof (induction m)
  case 0
  then show ?case by (auto intro!: nth_equalityI)
next
  case (Suc m)
  let ?prev = "map (\<lambda>c. map (\<lambda>k. if R - 1 - k < m then js_nth (shape ! (R - 1 - k)) c else Num 0) [0..<R]) [0..<C]"
  have len: "length ?prev = C" by simp
  have "fold (\<lambda>r. fold (\<lambda>c. rotate_cell shape R r c) [0..<C]) [0..<Suc m] (replicate C (replicate R (Num 0)))
      = fold (\<lambda>c. rotate_cell shape R m c) [0..<C] ?prev"
    using Suc by simp
  also have "\<dots> = map (\<lambda>c. if c < C then (?prev ! c)[R - 1 - m := js_nth (shape ! m) c] else ?prev ! c) [0..<C]"
    by (rule rotate_inner_loop[OF len order_refl])
  also have "\<dots> = map (\<lambda>c. map (\<lambda>k. if R - 1 - k < Suc m then js_nth (shape ! (R - 1 - k)) c else Num 0) [0..<R]) [0..<C]"
    using Suc.prems
    by (auto intro!: nth_equalityI simp: nth_list_update less_Suc_eq)
  finally show ?case .
qed

lemma rotate_shape_loops:
  assumes "shape = row0 # rest"
  shows "rotate_shape shape =
     Inr (map (\<lambda>c. map (\<lambda>k. js_nth (shape ! (length shape - 1 - k)) c) [0..<length shape])
            [0..<length row0])"
proof -
  have "rotate_shape shape = Inr (fold (\<lambda>r. fold (\<lambda>c. rotate_cell shape (length shape) r c) [0..<length row0])
           [0..<length shape] (replicate (length row0) (replicate (length shape) (Num 0))))"
    unfolding rotate_shape_def Let_def assms by simp
  also have "\<dots> = Inr (map (\<lambda>c. map (\<lambda>k. if length shape - 1 - k < length shape
           then js_nth (shape ! (length shape - 1 - k)) c else Num 0) [0..<length shape]) [0..<length row0])"
    by (simp only: rotate_outer_loop[OF order_refl])
  also have "\<dots> = Inr (map (\<lambda>c. map (\<lambda>k. js_nth (shape ! (length shape - 1 - k)) c) [0..<length shape])
            [0..<length row0])"
    using assms by (auto intro!: nth_equalityI)
  finally show ?thesis .
qed

lemma rotate_shape_empty: "rotate_shape [] = Inl TypeError"
  by (simp add: rotate_shape_def)

lemma rotate_shape_quarter_turn:
  assumes "is_matrix R C shape" "0 < R"
  shows "rotate_shape shape = Inr (quarter_turn R C shape)"
proof -
  from assms obtain row0 rest where sh: "shape = row0 # rest"
    by (cases shape) (auto simp: is_matrix_def)
  have lens: "length shape = R" "length row0 = C" "\<And>r. r < R \<Longrightarrow> length (shape ! r) = C"
    using assms sh by (auto simp: is_matrix_def list_all_length)
  have "rotate_shape shape = Inr (map (\<lambda>c. map (\<lambda>k. js_nth (shape ! (R - 1 - k)) c) [0..<R]) [0..<C])"
    using rotate_shape_loops[OF sh] lens by simp
  also have "\<dots> = Inr (quarter_turn R C shape)"
    using lens assms(2) by (auto simp: quarter_turn_def js_nth_def)
  finally show ?thesis .
qed

lemma is_matrix_quarter_turn: "is_matrix C R (quarter_turn R C shape)"
  by (simp add: quarter_turn_def is_matrix_def list_all_length)

lemma quarter_turn_nth:
  "r < R \<Longrightarrow> c < C \<Longrightarrow> quarter_turn R C shape ! c ! (R - 1 - r) = shape ! r ! c"
  by (simp add: quarter_turn_def)

lemma quarter_turn_twice:
  "quarter_turn C R (quarter_turn R C shape)
     = map (\<lambda>i. map (\<lambda>j. shape ! (R - 1 - i) ! (C - 1 - j)) [0..<C]) [0..<R]"
  by (auto simp: quarter_turn_def intro!: nth_equalityI)

lemma quarter_turn_four_times:
  assumes "is_matrix R C shape"
  shows "quarter_turn C R (quarter_turn R C (quarter_turn C R (quarter_turn R C shape))) = shape"
proof -
  have lens: "length shape = R" "\<And>r. r < R \<Longrightarrow> length (shape ! r) = C"
    using assms by (auto simp: is_matrix_def list_all_length)
  have "quarter_turn C R (quarter_turn R C (quarter_turn C R (quarter_turn R C shape)))
      = map (\<lambda>i. map (\<lambda>j. quarter_turn C R (quarter_turn R C shape) ! (R - 1 - i) ! (C - 1 - j)) [0..<C]) [0..<R]"
    by (rule quarter_turn_twice)
  also have "\<dots> = map (\<lambda>i. map (\<lambda>j. shape ! i ! j) [0..<C]) [0..<R]"
    by (auto simp: quarter_turn_twice)
  also have "\<dots> = shape"
    using lens by (auto intro!: nth_equalityI)
  finally show ?thesis .
qed

lemma rotate4_matrix:
  assumes "is_matrix R C shape" "0 < R" "0 < C"
  shows "rotate4 shape = Inr shape"
proof -
  have 1: "rotate_shape shape = Inr (quarter_turn R C shape)"
    by (rule rotate_shape_quarter_turn[OF assms(1,2)])
  have 2: "rotate_shape (quarter_turn R C shape) = Inr (quarter_turn C R (quarter_turn R C shape))"
    by (rule rotate_shape_quarter_turn[OF is_matrix_quarter_turn assms(3)])
  have 3: "rotate_shape (quarter_turn C R (quarter_turn R C shape))
         = Inr (quarter_turn R C (quarter_turn C R (quarter_turn R C shape)))"
    by (rule rotate_shape_quarter_turn[OF is_matrix_quarter_turn assms(2)])
  have 4: "rotate_shape (quarter_turn R C (quarter_turn C R (quarter_turn R C shape)))
         = Inr (quarter_turn C R (quarter_turn R C (quarter_turn C R (quarter_turn R C shape))))"
    by (rule rotate_shape_quarter_turn[OF is_matrix_quarter_turn assms(3)])
  show ?thesis
    by (simp add: rotate4_def bindE_def 1 2 3 4 quarter_turn_four_times[OF assms(1)])
qed

text \<open>
  Claim C1. For a shape matrix with \<open>R \<ge> 1\<close> rows and \<open>C \<ge> 1\<close> columns,
  \<^verbatim>\<open>rotate\<close> returns a \<open>C\<close> by \<open>R\<close> matrix \<open>res\<close> with
  \<open>res[c][R-1-r] = shape[r][c]\<close> for every cell, and four rotations in succession return
  the shape itself (so in particular the same set of occupied cells, with no
  re-centering needed).
\<close>

theorem rotate_clockwise_four_fold:
  assumes "is_matrix R C shape" "0 < R" "0 < C"
  shows "(\<exists>res. rotate_shape shape = Inr res \<and> is_matrix C R res \<and>
            (\<forall>r<R. \<forall>c<C. res ! c ! (R - 1 - r) = shape ! r ! c))
       \<and> rotate4 shape = Inr shape
       \<and> (\<exists>res4. rotate4 shape = Inr res4 \<and> cells res4 = cells shape)"
  using rotate_shape_quarter_turn[OF assms(1,2)] is_matrix_quarter_turn[of C R shape]
    quarter_turn_nth[of _ R _ C shape] rotate4_matrix[OF assms]
  by auto

text \<open>The seven tetrominoes satisfy the hypotheses, so each returns after four rotations.\<close>

theorem rotate_clockwise_four_fold_witness:
  "is_matrix 1 4 (SHAPES ! 0) \<and> is_matrix 2 2 (SHAPES ! 1) \<and> is_matrix 2 3 (SHAPES ! 2)
   \<and> is_matrix 2 3 (SHAPES ! 3) \<and> is_matrix 2 3 (SHAPES ! 4) \<and> is_matrix 2 3 (SHAPES ! 5)
   \<and> is_matrix 2 3 (SHAPES ! 6) \<and> length SHAPES = 7
   \<and> list_all (\<lambda>s. rotate4 s = Inr s) SHAPES
   \<and> rotate_shape (SHAPES ! 2) = Inr [[Num 1, Num 0], [Num 1, Num 1], [Num 1, Num 0]]"
proof -
  have m: "is_matrix 1 4 (SHAPES ! 0)" "is_matrix 2 2 (SHAPES ! 1)" "is_matrix 2 3 (SHAPES ! 2)"
    "is_matrix 2 3 (SHAPES ! 3)" "is_matrix 2 3 (SHAPES ! 4)" "is_matrix 2 3 (SHAPES ! 5)"
    "is_matrix 2 3 (SHAPES ! 6)"
    by (simp_all add: SHAPES_def is_matrix_def)
  have r: "rotate4 (SHAPES ! 0) = Inr (SHAPES ! 0)" "rotate4 (SHAPES ! 1) = Inr (SHAPES ! 1)"
    "rotate4 (SHAPES ! 2) = Inr (SHAPES ! 2)" "rotate4 (SHAPES ! 3) = Inr (SHAPES ! 3)"
    "rotate4 (SHAPES ! 4) = Inr (SHAPES ! 4)" "rotate4 (SHAPES ! 5) = Inr (SHAPES ! 5)"
    "rotate4 (SHAPES ! 6) = Inr (SHAPES ! 6)"
    using m(1)[THEN rotate_clockwise_four_fold] m(2)[THEN rotate_clockwise_four_fold]
      m(3)[THEN rotate_clockwise_four_fold] m(4)[THEN rotate_clockwise_four_fold]
      m(5)[THEN rotate_clockwise_four_fold] m(6)[THEN rotate_clockwise_four_fold]
      m(7)[THEN rotate_clockwise_four_fold]
    by simp_all
  have len: "length SHAPES = 7"
    by (simp add: SHAPES_def)
  have all: "list_all (\<lambda>s. rotate4 s = Inr s) SHAPES"
    unfolding list_all_length len using r
    by (auto simp: less_Suc_eq numeral_nat)
  obtain res where res: "rotate_shape (SHAPES ! 2) = Inr res" "is_matrix 3 2 res"
    "\<forall>r<2. \<forall>c<3. res ! c ! (2 - 1 - r) = SHAPES ! 2 ! r ! c"
    using rotate_clockwise_four_fold[OF m(3)] by auto
  have "res = [[Num 1, Num 0], [Num 1, Num 1], [Num 1, Num 0]]"
  proof -
    have l: "length res = 3" "length (res ! 0) = 2" "length (res ! 1) = 2" "length (res ! 2) = 2"
      using res(2) by (simp_all add: is_matrix_def list_all_length)
    have c: "res ! 0 ! 1 = Num 0" "res ! 0 ! 0 = Num 1" "res ! 1 ! 1 = Num 1" "res ! 1 ! 0 = Num 1"
      "res ! 2 ! 1 = Num 0" "res ! 2 ! 0 = Num 1"
      using res(3)[rule_format, of 0 0] res(3)[rule_format, of 1 0]
        res(3)[rule_format, of 0 1] res(3)[rule_format, of 1 1]
        res(3)[rule_format, of 0 2] res(3)[rule_format, of 1 2]
      by (simp_all add: SHAPES_def)
    have rows: "res ! 0 = [Num 1, Num 0]" "res ! 1 = [Num 1, Num 1]" "res ! 2 = [Num 1, Num 0]"
      using l c by (auto intro!: nth_equalityI simp: less_Suc_eq numeral_nat)
    show ?thesis
      using l(1) rows by (auto intro!: nth_equalityI simp: less_Suc_eq numeral_nat)
  qed
  with res(1) m r len all show ?thesis by simp
qed

section \<open>Tetris: line clearing and score\<close>

lemma clearLines_filter_fold:
  "fold (\<lambda>row (newBoard, linesCleared).
             if full_row row then (newBoard, linesCleared + 1)
             else (newBoard @ [row], linesCleared)) b (acc, n)
   = (acc @ filter (\<lambda>row. \<not> full_row row) b, n + length (filter full_row b))"
  by (induction b arbitrary: acc n) auto

lemma clearLines_filter_eq:
  "clearLines_filter b = (filter (\<lambda>row. \<not> full_row row) b, length (filter full_row b))"
  by (simp add: clearLines_filter_def clearLines_filter_fold)

lemma backfill_eq:
  "backfill newBoard = replicate (ROWS - length newBoard) (replicate COLS 0) @ newBoard"
proof (induction newBoard rule: backfill.induct)
  case (1 newBoard)
  show ?case
  proof (cases "length newBoard < ROWS")
    case True
    then have "ROWS - length newBoard = Suc (ROWS - Suc (length newBoard))" by simp
    with True 1 show ?thesis
      by (subst backfill.simps) (simp add: replicate_append_same)
  next
    case False
    then show ?thesis by (subst backfill.simps) simp
  qed
qed

lemma clearLines_eq:
  "clearLines b =
     (replicate (ROWS - length (filter (\<lambda>row. \<not> full_row row) b)) (replicate COLS 0)
        @ filter (\<lambda>row. \<not> full_row row) b,
      length (filter full_row b))"
  by (simp add: clearLines_def clearLines_filter_eq backfill_eq)

lemma length_filter_split:
  "length (filter (\<lambda>x. \<not> P x) xs) + length (filter P xs) = length xs"
  by (induction xs) auto

lemma clearLines_board:
  assumes "is_matrix ROWS COLS b"
  shows "clearLines b =
     (replicate (length (filter full_row b)) (replicate COLS 0) @ filter (\<lambda>row. \<not> full_row row) b,
      length (filter full_row b))"
    and "is_matrix ROWS COLS (fst (clearLines b))"
proof -
  have len: "length b = ROWS" and rows: "list_all (\<lambda>row. length row = COLS) b"
    using assms by (auto simp: is_matrix_def)
  have "ROWS - length (filter (\<lambda>row. \<not> full_row row) b) = length (filter full_row b)"
    using length_filter_split[of full_row b] len by simp
  then show 1: "clearLines b =
     (replicate (length (filter full_row b)) (replicate COLS 0) @ filter (\<lambda>row. \<not> full_row row) b,
      length (filter full_row b))"
    by (simp add: clearLines_eq)
  show "is_matrix ROWS COLS (fst (clearLines b))"
    using len rows length_filter_split[of full_row b]
    by (auto simp: 1 is_matrix_def list_all_iff)
qed

lemma filter_single_full:
  assumes "i < length b" "full_row (b ! i)" "\<forall>j<length b. j \<noteq> i \<longrightarrow> \<not> full_row (b ! j)"
  shows "filter (\<lambda>row. \<not> full_row row) b = take i b @ drop (Suc i) b"
    and "length (filter full_row b) = 1"
proof -
  have b: "b = take i b @ b ! i # drop (Suc i) b"
    using assms(1) by (rule id_take_nth_drop)
  have t: "\<forall>row \<in> set (take i b). \<not> full_row row"
    using assms(1,3) by (auto simp: in_set_conv_nth)
  have d: "\<forall>row \<in> set (drop (Suc i) b). \<not> full_row row"
    using assms(1,3) by (auto simp: in_set_conv_nth)
  have ft: "filter (\<lambda>row. \<not> full_row row) (take i b) = take i b"
       "filter full_row (take i b) = []"
    using t by (auto simp: filter_empty_conv)
  have fd: "filter (\<lambda>row. \<not> full_row row) (drop (Suc i) b) = drop (Suc i) b"
       "filter full_row (drop (Suc i) b) = []"
    using d by (auto simp: filter_empty_conv)
  show "filter (\<lambda>row. \<not> full_row row) b = take i b @ drop (Suc i) b"
    by (subst b) (simp add: ft fd assms(2) del: append_take_drop_id)
  show "length (filter full_row b) = 1"
    by (subst b) (simp add: ft fd assms(2) del: append_take_drop_id)
qed

lemma addScoreAndLevel_table:
  assumes "stat_score s = Num v"
  shows "addScoreAndLevel 1 s = \<lparr>stat_score = Num (v + 100), stat_lines = stat_lines s + 1,
            stat_level = min 10 (1 + (stat_lines s + 1) div 10)\<rparr>"
    and "addScoreAndLevel 2 s = \<lparr>stat_score = Num (v + 300), stat_lines = stat_lines s + 2,
            stat_level = min 10 (1 + (stat_lines s + 2) div 10)\<rparr>"
    and "addScoreAndLevel 3 s = \<lparr>stat_score = Num (v + 500), stat_lines = stat_lines s + 3,
            stat_level = min 10 (1 + (stat_lines s + 3) div 10)\<rparr>"
    and "addScoreAndLevel 4 s = \<lparr>stat_score = Num (v + 800), stat_lines = stat_lines s + 4,
            stat_level = min 10 (1 + (stat_lines s + 4) div 10)\<rparr>"
  using assms by (simp_all add: addScoreAndLevel_def Let_def js_nth_def pointsPerLines_def)

lemma addScoreAndLevel_beyond_table:
  "4 < n \<Longrightarrow> stat_score (addScoreAndLevel n s) = NaN"
  by (cases "stat_score s") (simp_all add: addScoreAndLevel_def Let_def js_nth_def pointsPerLines_def)

lemma lockClear_score:
  assumes "snd (clearLines merged) = n" "1 \<le> n" "n \<le> 4" "stat_score s = Num v"
  shows "lockClear merged s = (fst (clearLines merged), \<lparr>stat_score = Num (v + [100, 300, 500, 800] ! (n - 1)),
            stat_lines = stat_lines s + n, stat_level = min 10 (1 + (stat_lines s + n) div 10)\<rparr>)"
proof -
  from assms(2,3) consider "n = 1" | "n = 2" | "n = 3" | "n = 4" by linarith
  then show ?thesis
    using assms(1) addScoreAndLevel_table[OF assms(4)]
    by cases (auto simp: lockClear_def split: prod.splits)
qed


text \<open>
  Claim C2. On a 20 by 10 board \<^verbatim>\<open>clearLines\<close> drops exactly the rows whose cells are
  all nonzero, keeps the other rows in their order at the bottom and puts one empty row
  on top for each row dropped, so the result is 20 by 10 again and \<^verbatim>\<open>linesCleared\<close>
  is the number of full rows. A lock that clears \<open>n\<close> rows, \<open>1 \<le> n \<le> 4\<close>, adds
  100, 300, 500 or 800 to the score and \<open>n\<close> to the line total, and sets the level to
  \<open>min 10 (1 + total div 10)\<close>. With exactly one full row \<open>i\<close>, the result is one
  empty row, the rows above \<open>i\<close> and the rows below \<open>i\<close>, and the score grows by 100.
\<close>

theorem clearLines_lock_score:
  assumes "is_matrix ROWS COLS b"
  shows "clearLines b =
           (replicate (length (filter full_row b)) (replicate COLS 0)
              @ filter (\<lambda>row. \<not> full_row row) b,
            length (filter full_row b))
       \<and> is_matrix ROWS COLS (fst (clearLines b))
       \<and> (\<forall>n v. snd (clearLines b) = n \<and> 1 \<le> n \<and> n \<le> 4 \<and> stat_score s = Num v \<longrightarrow>
             lockClear b s =
               (fst (clearLines b),
                \<lparr>stat_score = Num (v + [100, 300, 500, 800] ! (n - 1)),
                 stat_lines = stat_lines s + n,
                 stat_level = min 10 (1 + (stat_lines s + n) div 10)\<rparr>))
       \<and> (\<forall>i v. i < ROWS \<and> full_row (b ! i) \<and> (\<forall>j<ROWS. j \<noteq> i \<longrightarrow> \<not> full_row (b ! j))
                \<and> stat_score s = Num v \<longrightarrow>
             lockClear b s =
               (replicate COLS 0 # take i b @ drop (Suc i) b,
                \<lparr>stat_score = Num (v + 100),
                 stat_lines = stat_lines s + 1,
                 stat_level = min 10 (1 + (stat_lines s + 1) div 10)\<rparr>))"
proof (intro conjI allI impI)
  show c1: "clearLines b =
           (replicate (length (filter full_row b)) (replicate COLS 0)
              @ filter (\<lambda>row. \<not> full_row row) b,
            length (filter full_row b))"
    by (rule clearLines_board(1)[OF assms])
  show "is_matrix ROWS COLS (fst (clearLines b))"
    by (rule clearLines_board(2)[OF assms])
next
  fix n v
  assume "snd (clearLines b) = n \<and> 1 \<le> n \<and> n \<le> 4 \<and> stat_score s = Num v"
  then show "lockClear b s =
               (fst (clearLines b),
                \<lparr>stat_score = Num (v + [100, 300, 500, 800] ! (n - 1)),
                 stat_lines = stat_lines s + n,
                 stat_level = min 10 (1 + (stat_lines s + n) div 10)\<rparr>)"
    using lockClear_score[of b n s v] by blast
next
  fix i v
  assume h: "i < ROWS \<and> full_row (b ! i) \<and> (\<forall>j<ROWS. j \<noteq> i \<longrightarrow> \<not> full_row (b ! j))
                \<and> stat_score s = Num v"
  have len: "length b = ROWS"
    using assms by (simp add: is_matrix_def)
  have f: "filter (\<lambda>row. \<not> full_row row) b = take i b @ drop (Suc i) b"
          "length (filter full_row b) = 1"
    using filter_single_full[of i b] h len by auto
  have cl: "clearLines b = (replicate COLS 0 # take i b @ drop (Suc i) b, 1)"
    using clearLines_board(1)[OF assms] f by simp
  show "lockClear b s =
               (replicate COLS 0 # take i b @ drop (Suc i) b,
                \<lparr>stat_score = Num (v + 100),
                 stat_lines = stat_lines s + 1,
                 stat_level = min 10 (1 + (stat_lines s + 1) div 10)\<rparr>)"
    using lockClear_score[of b 1 s v] h cl by simp
qed

text \<open>
  A board of eighteen empty rows, one incomplete row and one full row at the bottom,
  with a fresh score: the full row goes, the incomplete row is the new bottom row, and
  the score is 100.
\<close>

theorem clearLines_lock_score_witness:
  "is_matrix ROWS COLS
     (replicate 18 (replicate 10 0) @ [[1, 0, 2, 0, 0, 0, 0, 0, 0, 3], replicate 10 (4::int)])
   \<and> lockClear (replicate 18 (replicate 10 0) @ [[1, 0, 2, 0, 0, 0, 0, 0, 0, 3], replicate 10 4])
        \<lparr>stat_score = Num 0, stat_lines = 0, stat_level = 1\<rparr>
      = (replicate 19 (replicate 10 0) @ [[1, 0, 2, 0, 0, 0, 0, 0, 0, 3]],
         \<lparr>stat_score = Num 100, stat_lines = 1, stat_level = 1\<rparr>)"
proof -
  let ?b = "replicate 18 (replicate 10 0) @ [[1, 0, 2, 0, 0, 0, 0, 0, 0, 3], replicate 10 (4::int)]"
  let ?s = "\<lparr>stat_score = Num 0, stat_lines = 0, stat_level = 1\<rparr>"
  have m: "is_matrix ROWS COLS ?b"
    by (simp add: is_matrix_def ROWS_def COLS_def list_all_iff)
  have z: "\<not> full_row (replicate 10 0)" "full_row (replicate 10 4)"
    "\<not> full_row [1, 0, 2, 0, 0, 0, 0, 0, 0, 3]"
    by (simp_all add: full_row_def list_all_iff)
  have f: "filter full_row ?b = [replicate 10 4]"
    "filter (\<lambda>row. \<not> full_row row) ?b = replicate 18 (replicate 10 0) @ [[1, 0, 2, 0, 0, 0, 0, 0, 0, 3]]"
    using z by simp_all
  note t = clearLines_lock_score[OF m, of ?s]
  have r: "replicate 19 (replicate 10 (0::int)) = replicate 10 0 # replicate 18 (replicate 10 0)"
    using replicate_Suc[of 18 "replicate 10 (0::int)"] by simp
  have cl: "clearLines ?b = (replicate 19 (replicate 10 0) @ [[1, 0, 2, 0, 0, 0, 0, 0, 0, 3]], 1)"
    using t[THEN conjunct1] unfolding f by (simp add: COLS_def r)
  have "lockClear ?b ?s = (fst (clearLines ?b),
          \<lparr>stat_score = Num (0 + [100, 300, 500, 800] ! (1 - 1)),
           stat_lines = stat_lines ?s + 1,
           stat_level = min 10 (1 + (stat_lines ?s + 1) div 10)\<rparr>)"
    using t[THEN conjunct2, THEN conjunct2, THEN conjunct1, rule_format, of 1 0] cl by simp
  with cl m show ?thesis by simp
qed

section \<open>Binary64 rounding\<close>

lemma pow2_pos: "0 < pow2 e"
  by (simp add: pow2_def)

lemma pow2_powr: "pow2 e = 2 powr (of_int e)"
  by (simp add: pow2_def powr_realpow[symmetric] powr_minus divide_inverse)

lemma pow2_mono: "a \<le> b \<Longrightarrow> pow2 a \<le> pow2 b"
  by (simp add: pow2_powr)

lemma binade_le: "0 \<le> k \<Longrightarrow> y < 2 ^ (nat k + 1) \<Longrightarrow> binade n y \<le> k"
proof (induction n arbitrary: y k)
  case 0
  then show ?case by simp
next
  case (Suc n)
  show ?case
  proof (cases "y < 1")
    case True
    then have "2 * y < 2 ^ (nat 0 + 1)" by simp
    from Suc.IH[OF _ this] have "binade n (2 * y) \<le> 0" by simp
    with True Suc.prems(1) show ?thesis by simp
  next
    case False
    show ?thesis
    proof (cases "2 \<le> y")
      case True
      have k: "1 \<le> k"
      proof (rule ccontr)
        assume "\<not> 1 \<le> k"
        with Suc.prems(1) have "k = 0" by simp
        with Suc.prems(2) True show False by simp
      qed
      then have "nat k + 1 = Suc (nat (k - 1) + 1)" by simp
      with Suc.prems(2) have "y / 2 < 2 ^ (nat (k - 1) + 1)" by simp
      from Suc.IH[OF _ this] k have "binade n (y / 2) \<le> k - 1" by simp
      with True False show ?thesis by simp
    next
      case False
      with \<open>\<not> y < 1\<close> Suc.prems(1) show ?thesis by simp
    qed
  qed
qed

lemma binade_half: "1 / 2 \<le> y \<Longrightarrow> y < 1 \<Longrightarrow> binade (Suc n) y = - 1"
  by (cases n) simp_all

lemma round_even_bounds: "of_int (round_even q) \<le> q + 1 / 2" "q - 1 / 2 \<le> of_int (round_even q)"
   "0 \<le> q \<Longrightarrow> 0 \<le> round_even q"
  unfolding round_even_def Let_def by (auto; linarith)+



lemma round64_nonneg: "0 \<le> y \<Longrightarrow> 0 \<le> round64 y"
  using round_even_bounds(3)[of "y / pow2 (max (binade 1100 y) (- 1022) - 52)"] pow2_pos
  by (simp add: round64_def Let_def less_imp_le)

lemma round64_le:
  assumes "0 \<le> k" "y < 2 ^ (nat k + 1)"
  shows "round64 y \<le> y + pow2 (k - 52) / 2"
proof (cases "y = 0")
  case True
  then show ?thesis using pow2_pos[of "k - 52"] by (simp add: round64_def)
next
  case False
  define u where "u = pow2 (max (binade 1100 y) (- 1022) - 52)"
  have u0: "0 < u" by (simp add: u_def pow2_pos)
  have "max (binade 1100 y) (- 1022) \<le> k"
    using binade_le[OF assms, of 1100] assms(1) by simp
  then have uk: "u \<le> pow2 (k - 52)"
    unfolding u_def by (intro pow2_mono) simp
  have "of_int (round_even (y / u)) * u \<le> (y / u + 1 / 2) * u"
    using round_even_bounds(1)[of "y / u"] u0 by (intro mult_right_mono) simp_all
  also have "\<dots> = y + u / 2"
    using u0 by (simp add: field_simps)
  finally have "round64 y \<le> y + u / 2"
    using False by (simp add: round64_def u_def Let_def)
  with uk show ?thesis by simp
qed

lemma double_below_one:
  assumes "is_double x" "0 \<le> x" "x < 1"
  shows "x \<le> 1 - 1 / 2 ^ 53"
proof (cases "x < 1 / 2")
  case True
  then show ?thesis by simp
next
  case False
  then have h: "1 / 2 \<le> x" by simp
  have b: "binade 1100 x = - 1"
    using binade_half[OF h assms(3), of 1099] by simp
  have x0: "x \<noteq> 0" using h by simp
  have p: "pow2 (- 53) = 1 / 2 ^ 53"
    by (simp add: pow2_def)
  have "round64 x = of_int (round_even (x * 2 ^ 53)) / 2 ^ 53"
    using x0 by (simp add: round64_def b p Let_def)
  with assms(1) have e: "x * 2 ^ 53 = of_int (round_even (x * 2 ^ 53))"
    by (simp add: is_double_def field_simps)
  define m where "m = round_even (x * 2 ^ 53)"
  have em: "x * 2 ^ 53 = real_of_int m"
    unfolding m_def by (rule e)
  have "x * 2 ^ 53 < 1 * 2 ^ 53"
    using assms(3) by (intro mult_strict_right_mono) simp_all
  then have "real_of_int m < real_of_int (2 ^ 53)"
    unfolding em by simp
  then have "m < 2 ^ 53"
    unfolding of_int_less_iff .
  then have "m \<le> 2 ^ 53 - 1" by simp
  then have "real_of_int m \<le> real_of_int (2 ^ 53 - 1)"
    unfolding of_int_le_iff .
  then have "x * 2 ^ 53 \<le> 2 ^ 53 - 1"
    unfolding em by simp
  then show ?thesis
    by (simp add: field_simps)
qed

lemma floor_js_mul_18:
  assumes "0 \<le> x" "x \<le> 1 - 1 / 2 ^ 53"
  shows "0 \<le> \<lfloor>js_mul x 18\<rfloor> \<and> \<lfloor>js_mul x 18\<rfloor> < 18"
proof -
  have y: "0 \<le> x * 18" "x * 18 \<le> 18 - 18 / 2 ^ 53"
    using assms by simp_all
  then have "x * 18 < 2 ^ (nat 4 + 1)" by simp
  from round64_le[OF _ this] have "round64 (x * 18) \<le> x * 18 + pow2 (- 48) / 2"
    by simp
  also have "pow2 (- 48) = 1 / 2 ^ 48" by (simp add: pow2_def)
  finally have "round64 (x * 18) < 18"
    using y(2) by simp
  moreover have "0 \<le> round64 (x * 18)"
    by (rule round64_nonneg[OF y(1)])
  ultimately show ?thesis
    by (simp add: js_mul_def floor_less_iff)
qed

lemma math_random_const: "0 \<le> c \<Longrightarrow> c < 1 \<Longrightarrow> is_double c \<Longrightarrow> math_random (\<lambda>k. c)"
  by (simp add: math_random_def)

section \<open>Snake: the food search\<close>

lemma drawnCell_shift: "drawnCell (\<lambda>k. rnd (k + 2)) k = drawnCell rnd (Suc k)"
  by (simp add: drawnCell_def add.commute)

lemma randomFood_unfold:
  "randomFood rnd used =
     (if cellKey (drawnCell rnd 0) \<notin> used then Some (drawnCell rnd 0)
      else randomFood (\<lambda>k. rnd (k + 2)) used)"
  by (subst randomFood.simps) (simp add: drawnCell_def cellKey_def Let_def)

lemma randomFood_Some:
  assumes "randomFood rnd used = Some p"
  shows "\<exists>k. p = drawnCell rnd k \<and> cellKey p \<notin> used \<and> (\<forall>j<k. cellKey (drawnCell rnd j) \<in> used)"
proof (rule randomFood.raw_induct[where P = "\<lambda>rnd used p. \<exists>k. p = drawnCell rnd k \<and> cellKey p \<notin> used
          \<and> (\<forall>j<k. cellKey (drawnCell rnd j) \<in> used)", OF _ assms])
  fix f :: "(nat \<Rightarrow> real) \<Rightarrow> (int \<times> int) set \<Rightarrow> Point option" and rnd used p
  assume IH: "\<And>rnd' used' p'. f rnd' used' = Some p' \<Longrightarrow>
      \<exists>k. p' = drawnCell rnd' k \<and> cellKey p' \<notin> used' \<and> (\<forall>j<k. cellKey (drawnCell rnd' j) \<in> used')"
  assume "(let x = \<lfloor>js_mul (rnd 0) (real_of_int GRID_snake)\<rfloor>;
               y = \<lfloor>js_mul (rnd 1) (real_of_int GRID_snake)\<rfloor>
           in if (x, y) \<notin> used then Some \<lparr>px = x, py = y\<rparr>
              else f (\<lambda>k. rnd (k + 2)) used) = Some p"
  then have body: "(if cellKey (drawnCell rnd 0) \<notin> used then Some (drawnCell rnd 0)
      else f (\<lambda>k. rnd (k + 2)) used) = Some p"
    by (auto simp: drawnCell_def cellKey_def Let_def split: if_splits)
  show "\<exists>k. p = drawnCell rnd k \<and> cellKey p \<notin> used \<and> (\<forall>j<k. cellKey (drawnCell rnd j) \<in> used)"
  proof (cases "cellKey (drawnCell rnd 0) \<notin> used")
    case True
    with body have "p = drawnCell rnd 0"
      by simp
    with True show ?thesis by (intro exI[of _ 0]) simp
  next
    case False
    with body have "f (\<lambda>k. rnd (k + 2)) used = Some p"
      by simp
    then have "\<exists>k. p = drawnCell (\<lambda>k. rnd (k + 2)) k \<and> cellKey p \<notin> used \<and>
       (\<forall>j<k. cellKey (drawnCell (\<lambda>k. rnd (k + 2)) j) \<in> used)"
      by (rule IH)
    then obtain k where k: "p = drawnCell rnd (Suc k)" "cellKey p \<notin> used"
      "\<forall>j<k. cellKey (drawnCell rnd (Suc j)) \<in> used"
      unfolding drawnCell_shift by blast
    have "\<forall>j<Suc k. cellKey (drawnCell rnd j) \<in> used"
    proof (intro allI impI)
      fix j assume "j < Suc k"
      then show "cellKey (drawnCell rnd j) \<in> used"
        using False k(3) by (cases j) auto
    qed
    with k show ?thesis
      by (intro exI[of _ "Suc k"]) simp
  qed
qed

lemma randomFood_first_free:
  assumes "cellKey (drawnCell rnd k) \<notin> used" "\<forall>j<k. cellKey (drawnCell rnd j) \<in> used"
  shows "randomFood rnd used = Some (drawnCell rnd k)"
  using assms
proof (induction k arbitrary: rnd)
  case 0
  then show ?case
    by (subst randomFood_unfold) simp
next
  case (Suc k)
  have 0: "cellKey (drawnCell rnd 0) \<in> used"
    using Suc.prems(2) by blast
  have "randomFood (\<lambda>k. rnd (k + 2)) used = Some (drawnCell (\<lambda>k. rnd (k + 2)) k)"
  proof (rule Suc.IH)
    show "cellKey (drawnCell (\<lambda>k. rnd (k + 2)) k) \<notin> used"
      unfolding drawnCell_shift using Suc.prems(1) .
    show "\<forall>j<k. cellKey (drawnCell (\<lambda>k. rnd (k + 2)) j) \<in> used"
      unfolding drawnCell_shift using Suc.prems(2) by simp
  qed
  then have "randomFood (\<lambda>k. rnd (k + 2)) used = Some (drawnCell rnd (Suc k))"
    unfolding drawnCell_shift .
  with 0 show ?case
    by (subst randomFood_unfold) simp
qed

lemma drawnCell_in_grid:
  assumes "math_random rnd"
  shows "in_grid (drawnCell rnd k)"
proof -
  have r: "0 \<le> \<lfloor>js_mul (rnd j) 18\<rfloor> \<and> \<lfloor>js_mul (rnd j) 18\<rfloor> < 18" for j
  proof (rule floor_js_mul_18)
    show "0 \<le> rnd j"
      using assms by (simp add: math_random_def)
    show "rnd j \<le> 1 - 1 / 2 ^ 53"
      using assms by (intro double_below_one) (simp_all add: math_random_def)
  qed
  show ?thesis
    using r[of "2 * k"] r[of "2 * k + 1"]
    by (simp add: in_grid_def drawnCell_def GRID_snake_def)
qed

lemma randomFood_none_when_full:
  assumes "math_random rnd" "\<forall>p. in_grid p \<longrightarrow> cellKey p \<in> used"
  shows "randomFood rnd used = None"
proof (cases "randomFood rnd used")
  case None
  then show ?thesis .
next
  case (Some p)
  from randomFood_Some[OF Some] obtain k where "p = drawnCell rnd k" "cellKey p \<notin> used" by blast
  with assms drawnCell_in_grid[OF assms(1), of k] show ?thesis by blast
qed

section \<open>Snake: the three outcomes of a tick\<close>

lemma Point_eq_iff: "(p :: Point) = \<lparr>px = a, py = b\<rparr> \<longleftrightarrow> px p = a \<and> py p = b"
  by (cases p) auto

lemma Point_eta: "\<lparr>px = px p, py = py p\<rparr> = (p :: Point)"
  by (cases p) simp

lemma some_iff_member:
  "list_ex (\<lambda>p. px p = a \<and> py p = b) (ps :: Point list) \<longleftrightarrow> \<lparr>px = a, py = b\<rparr> \<in> set ps"
  by (auto simp: list_ex_iff Point_eq_iff[symmetric])

lemma out_of_grid_iff:
  "a < 0 \<or> a \<ge> GRID_snake \<or> b < 0 \<or> b \<ge> GRID_snake \<longleftrightarrow> \<not> in_grid \<lparr>px = a, py = b\<rparr>"
  by (auto simp: in_grid_def)

lemma food_eq_iff:
  "a = px (f :: Point) \<and> b = py f \<longleftrightarrow> \<lparr>px = a, py = b\<rparr> = f"
  by (cases f) auto

lemma tick_unfold:
  assumes "snake st \<noteq> []"
  shows "tick rnd st =
     (if \<not> in_grid (nextHead st) \<or> nextHead st \<in> set (snake st)
      then Some (Inr (st\<lparr>status := Ended\<rparr>))
      else if nextHead st = food st
      then (case randomFood rnd (set (map cellKey (nextHead st # snake st))) of
              None \<Rightarrow> None
            | Some f \<Rightarrow>
                Some (Inr (st\<lparr>snake := nextHead st # snake st, score := score st + 10, food := f\<rparr>)))
      else Some (Inr (st\<lparr>snake := nextHead st # butlast (snake st)\<rparr>)))"
proof -
  obtain h rest where s: "snake st = h # rest"
    using assms by (cases "snake st") auto
  define nx where "nx = px h + px (delta (dir st))"
  define ny where "ny = py h + py (delta (dir st))"
  have n: "nextHead st = \<lparr>px = nx, py = ny\<rparr>"
    by (simp add: nextHead_def s nx_def ny_def)
  have c1: "(nx < 0 \<or> nx \<ge> GRID_snake \<or> ny < 0 \<or> ny \<ge> GRID_snake
           \<or> list_ex (\<lambda>p. px p = nx \<and> py p = ny) (snake st))
         = (\<not> in_grid (nextHead st) \<or> nextHead st \<in> set (snake st))"
    unfolding some_iff_member n by (auto simp: in_grid_def)
  have c2: "(nx = px (food st) \<and> ny = py (food st)) = (nextHead st = food st)"
    unfolding n by (rule food_eq_iff)
  have bl: "butlast (nextHead st # snake st) = nextHead st # butlast (snake st)"
    using assms by simp
  have "tick rnd st =
     (if nx < 0 \<or> nx \<ge> GRID_snake \<or> ny < 0 \<or> ny \<ge> GRID_snake
           \<or> list_ex (\<lambda>p. px p = nx \<and> py p = ny) (snake st)
      then Some (Inr (st\<lparr>status := Ended\<rparr>))
      else if nx = px (food st) \<and> ny = py (food st)
      then (case randomFood rnd (set (map cellKey (\<lparr>px = nx, py = ny\<rparr> # snake st))) of
              None \<Rightarrow> None
            | Some f \<Rightarrow>
                Some (Inr (st\<lparr>snake := \<lparr>px = nx, py = ny\<rparr> # snake st, score := score st + 10,
                              food := f\<rparr>)))
      else Some (Inr (st\<lparr>snake := butlast (\<lparr>px = nx, py = ny\<rparr> # snake st)\<rparr>)))"
    unfolding tick_def nx_def ny_def Let_def s list.case by (rule refl)
  also have "\<dots> =
     (if \<not> in_grid (nextHead st) \<or> nextHead st \<in> set (snake st)
      then Some (Inr (st\<lparr>status := Ended\<rparr>))
      else if nextHead st = food st
      then (case randomFood rnd (set (map cellKey (nextHead st # snake st))) of
              None \<Rightarrow> None
            | Some f \<Rightarrow>
                Some (Inr (st\<lparr>snake := nextHead st # snake st, score := score st + 10, food := f\<rparr>)))
      else Some (Inr (st\<lparr>snake := nextHead st # butlast (snake st)\<rparr>)))"
    by (simp only: c1 c2 n[symmetric] bl)
  finally show ?thesis .
qed

lemma tick_collision:
  assumes "snake st \<noteq> []" "\<not> in_grid (nextHead st) \<or> nextHead st \<in> set (snake st)"
  shows "tick rnd st = Some (Inr (st\<lparr>status := Ended\<rparr>))"
  using assms(2) by (simp add: tick_unfold[OF assms(1)])

lemma tick_eat:
  assumes "snake st \<noteq> []" "in_grid (nextHead st)" "nextHead st \<notin> set (snake st)"
    "nextHead st = food st"
  shows "tick rnd st =
     (case randomFood rnd (set (map cellKey (nextHead st # snake st))) of
        None \<Rightarrow> None
      | Some f \<Rightarrow> Some (Inr (st\<lparr>snake := nextHead st # snake st, score := score st + 10, food := f\<rparr>)))"
  using assms(2-) by (simp add: tick_unfold[OF assms(1)])

lemma tick_move:
  assumes "snake st \<noteq> []" "in_grid (nextHead st)" "nextHead st \<notin> set (snake st)"
    "nextHead st \<noteq> food st"
  shows "tick rnd st = Some (Inr (st\<lparr>snake := nextHead st # butlast (snake st)\<rparr>))"
  using assms(2-) by (simp add: tick_unfold[OF assms(1)])

lemma tick_empty: "snake st = [] \<Longrightarrow> tick rnd st = Some (Inl TypeError)"
  by (simp add: tick_def)

section \<open>Snake: the grid filled by the snake\<close>

lemma cellKey_inj: "cellKey p = cellKey q \<longleftrightarrow> p = (q :: Point)"
  by (cases p; cases q) (auto simp: cellKey_def)

lemma cellKey_mem: "cellKey p \<in> set (map cellKey ps) \<longleftrightarrow> (p :: Point) \<in> set ps"
  by (auto simp: cellKey_inj)

lemma gridRow_props:
  "distinct (gridRow j)" "set (gridRow j) = (\<lambda>i. \<lparr>px = i, py = j\<rparr>) ` {0..17}" "gridRow j \<noteq> []"
  by (auto simp: gridRow_def distinct_map inj_on_def)

lemma set_gridWalk: "set gridWalk = {p. in_grid p}"
proof -
  have "set gridWalk = (\<Union>j\<in>{0..17}. (\<lambda>i. \<lparr>px = i, py = j\<rparr>) ` {0..17})"
    by (simp only: gridWalk_def set_concat set_map image_image set_upto gridRow_props(2))
  also have "\<dots> = {p. in_grid p}"
    by (auto simp: in_grid_def GRID_snake_def image_iff Point_eq_iff)
  finally show ?thesis .
qed

lemma distinct_gridWalk: "distinct gridWalk"
proof -
  have inj: "inj_on gridRow {0..17}"
  proof (rule inj_onI)
    fix a b :: int
    assume "gridRow a = gridRow b"
    then have "set (gridRow a) = set (gridRow b)" by simp
    then have "(\<lambda>i. \<lparr>px = i, py = a\<rparr>) ` {0..17} = (\<lambda>i. \<lparr>px = i, py = b\<rparr>) ` {0..17}"
      unfolding gridRow_props(2) .
    moreover have "\<lparr>px = 0, py = a\<rparr> \<in> (\<lambda>i. \<lparr>px = i, py = a\<rparr>) ` {0..17}"
      by simp
    ultimately have "\<lparr>px = 0, py = a\<rparr> \<in> (\<lambda>i. \<lparr>px = i, py = b\<rparr>) ` {0..17}"
      by simp
    then show "a = b" by auto
  qed
  show ?thesis
    unfolding gridWalk_def
  proof (rule distinct_concat)
    show "distinct (map gridRow [0..17])"
      using inj by (simp add: distinct_map)
    show "\<And>ys. ys \<in> set (map gridRow [0..17]) \<Longrightarrow> distinct ys"
      by (auto simp: gridRow_props(1))
    show "\<And>ys zs. ys \<in> set (map gridRow [0..17]) \<Longrightarrow> zs \<in> set (map gridRow [0..17]) \<Longrightarrow> ys \<noteq> zs
        \<Longrightarrow> set ys \<inter> set zs = {}"
      by (auto simp: gridRow_props(2))
  qed
qed

lemma gridWalk_ends:
  "hd (rev gridWalk) = \<lparr>px = 0, py = 17\<rparr>"
  "hd (tl (rev gridWalk)) = \<lparr>px = 1, py = 17\<rparr>"
  "length gridWalk = 324"
  by code_simp+

lemma rev_gridWalk: "rev gridWalk = hd (rev gridWalk) # tl (rev gridWalk)"
proof -
  have "rev gridWalk \<noteq> []"
    using gridWalk_ends(3) by auto
  then show ?thesis by simp
qed

lemma fullState_facts:
  "snake fullState \<noteq> []"
  "nextHead fullState = food fullState"
  "food fullState = \<lparr>px = 0, py = 17\<rparr>"
  "food fullState # snake fullState = rev gridWalk"
  "length (snake fullState) = 323"
  "snake_inv fullState"
proof -
  have l: "length (tl (rev gridWalk)) = 323"
    using gridWalk_ends(3) by simp
  show ne: "snake fullState \<noteq> []"
  proof
    assume "snake fullState = []"
    then have "tl (rev gridWalk) = []" by (simp add: fullState_def)
    then have "length (tl (rev gridWalk)) = 0" by (simp only: list.size)
    with l show False by simp
  qed
  show f: "food fullState = \<lparr>px = 0, py = 17\<rparr>"
    by (simp add: fullState_def gridWalk_ends)
  show "nextHead fullState = food fullState"
    unfolding f by (simp add: nextHead_def fullState_def gridWalk_ends delta_def)
  have sel: "food fullState = hd (rev gridWalk)" "snake fullState = tl (rev gridWalk)"
    by (simp_all add: fullState_def)
  show r: "food fullState # snake fullState = rev gridWalk"
    unfolding sel by (rule rev_gridWalk[symmetric])
  show "length (snake fullState) = 323"
    using l by (simp add: fullState_def)
  have d: "distinct (food fullState # snake fullState)"
    unfolding r using distinct_gridWalk by simp
  have g: "list_all in_grid (food fullState # snake fullState)"
    unfolding r using set_gridWalk by (simp add: list_all_iff)
  show "snake_inv fullState"
    using ne d g by (simp add: snake_inv_def)
qed

lemma tick_fullState:
  assumes "math_random rnd"
  shows "tick rnd fullState = None"
proof -
  have inv: "snake_inv fullState" by (rule fullState_facts(6))
  have used: "\<forall>p. in_grid p \<longrightarrow> cellKey p \<in> set (map cellKey (nextHead fullState # snake fullState))"
    unfolding fullState_facts(2) fullState_facts(4) cellKey_mem using set_gridWalk by simp
  have "tick rnd fullState
      = (case randomFood rnd (set (map cellKey (nextHead fullState # snake fullState))) of
           None \<Rightarrow> None
         | Some f \<Rightarrow> Some (Inr (fullState\<lparr>snake := nextHead fullState # snake fullState,
                                       score := score fullState + 10, food := f\<rparr>)))"
    using inv by (intro tick_eat) (simp_all add: snake_inv_def fullState_facts(2))
  then show ?thesis
    by (simp only: randomFood_none_when_full[OF assms used] option.case)
qed

section \<open>Snake: the invariant\<close>

lemma snake_inv_frame:
  assumes "snake st' = snake st" "food st' = food st"
  shows "snake_inv st' = snake_inv st"
  by (simp add: snake_inv_def assms)

lemma initialSnake_ok: "distinct initialSnake" "list_all in_grid initialSnake" "initialSnake \<noteq> []"
  by (simp_all add: initialSnake_def in_grid_def GRID_snake_def)

lemma randomFood_ok:
  assumes "math_random rnd" "randomFood rnd (set (map cellKey ps)) = Some f"
  shows "in_grid f \<and> f \<notin> set ps"
proof -
  from randomFood_Some[OF assms(2)] obtain k where "f = drawnCell rnd k"
    "cellKey f \<notin> set (map cellKey ps)" by blast
  then show ?thesis
    using drawnCell_in_grid[OF assms(1), of k] unfolding cellKey_mem by simp
qed

lemma snake_inv_mount:
  assumes "math_random rnd" "mount_snake rnd = Some st"
  shows "snake_inv st"
proof -
  from assms(2) obtain f where f: "randomFood rnd (set (map cellKey initialSnake)) = Some f"
    and st: "st = \<lparr>status = Idle, dir = Right, snake = initialSnake, food = f, score = 0, countdown = 3\<rparr>"
    by (auto simp: mount_snake_def split: option.splits)
  show ?thesis
    using randomFood_ok[OF assms(1) f] initialSnake_ok by (simp add: snake_inv_def st)
qed

lemma snake_inv_reset:
  assumes "math_random rnd" "reset_snake rnd st = Some st'"
  shows "snake_inv st'" "status st' = Idle"
proof -
  from assms(2) obtain f where f: "randomFood rnd (set (map cellKey initialSnake)) = Some f"
    and st: "st' = st\<lparr>snake := initialSnake, dir := Right, score := 0, food := f, status := Idle\<rparr>"
    by (auto simp: reset_snake_def split: option.splits)
  show "snake_inv st'"
    using randomFood_ok[OF assms(1) f] initialSnake_ok by (simp add: snake_inv_def st)
  show "status st' = Idle" by (simp add: st)
qed

lemma snake_inv_tick:
  assumes "snake_inv st" "math_random rnd" "tick rnd st = Some (Inr st')"
  shows "snake_inv st'"
proof -
  have ne: "snake st \<noteq> []" and d: "distinct (snake st)" and g: "list_all in_grid (snake st)"
    and fg: "in_grid (food st)" and fs: "food st \<notin> set (snake st)"
    using assms(1) by (simp_all add: snake_inv_def)
  consider (hit) "\<not> in_grid (nextHead st) \<or> nextHead st \<in> set (snake st)"
    | (eat) "in_grid (nextHead st)" "nextHead st \<notin> set (snake st)" "nextHead st = food st"
    | (move) "in_grid (nextHead st)" "nextHead st \<notin> set (snake st)" "nextHead st \<noteq> food st"
    by blast
  then show ?thesis
  proof cases
    case hit
    then have "st' = st\<lparr>status := Ended\<rparr>"
      using assms(3) tick_collision[OF ne, of rnd] by simp
    then show ?thesis
      using assms(1) by (simp add: snake_inv_def)
  next
    case eat
    from assms(3) tick_eat[OF ne eat, of rnd]
    obtain f where f: "randomFood rnd (set (map cellKey (nextHead st # snake st))) = Some f"
      and st': "st' = st\<lparr>snake := nextHead st # snake st, score := score st + 10, food := f\<rparr>"
      by (auto split: option.splits)
    show ?thesis
      using randomFood_ok[OF assms(2) f] eat d g by (simp add: snake_inv_def st')
  next
    case move
    then have st': "st' = st\<lparr>snake := nextHead st # butlast (snake st)\<rparr>"
      using assms(3) tick_move[OF ne move, of rnd] by simp
    have "set (butlast (snake st)) \<subseteq> set (snake st)"
      by (auto dest: in_set_butlastD)
    then show ?thesis
      using move d g fg fs by (auto simp: snake_inv_def st' distinct_butlast list_all_iff)
  qed
qed

lemma snake_reachable_inv:
  assumes "snake_reachable st"
  shows "snake_inv st"
  using assms
proof (induction rule: snake_reachable.induct)
  case (mounted rnd st)
  then show ?case by (rule snake_inv_mount)
next
  case (ticked st rnd st')
  then show ?case by (auto intro: snake_inv_tick)
next
  case (counted st)
  then show ?case
    by (simp add: snake_inv_def countdownStep_def startRun_def Let_def)
next
  case (key st k)
  then show ?case
    by (auto simp: snake_inv_def onKeyDown_def beginCountdown_def togglePause_def steer_def
             split: option.splits)
next
  case (tap st d)
  then show ?case
    by (auto simp: snake_inv_def handleTapDir_def steer_def)
next
  case (tapPause st)
  then show ?case by (simp add: snake_inv_def togglePause_def)
next
  case (button st)
  then show ?case by (simp add: snake_inv_def pauseButton_def beginCountdown_def)
next
  case (startButton st)
  then show ?case by (simp add: snake_inv_def beginCountdown_def)
next
  case (resetButton st rnd st')
  then show ?case by (auto intro: snake_inv_reset)
next
  case (again st rnd st')
  then have "snake_inv st'" by (auto intro: snake_inv_reset)
  then show ?case by (simp add: snake_inv_def beginCountdown_def)
qed

section \<open>Snake: collision, growth and the invariant\<close>

lemma is_double_consts: "is_double (1 / 2)" "is_double (1 / 4)" "is_double (3 / 16)" "is_double 0"
  by code_simp+

lemma js_mul_consts: "js_mul (1 / 2) 18 = 9" "\<lfloor>js_mul (1 / 4) 18\<rfloor> = 4" "\<lfloor>js_mul (3 / 16) 18\<rfloor> = 3"
  by code_simp+

lemma half_stream: "math_random (\<lambda>k. 1 / 2)" "drawnCell (\<lambda>k. 1 / 2) j = \<lparr>px = 9, py = 9\<rparr>"
  by (simp_all add: math_random_def is_double_consts drawnCell_def GRID_snake_def js_mul_consts)

lemma quarter_stream:
  "math_random (\<lambda>k. if even k then 1 / 4 else 3 / 16)"
  "drawnCell (\<lambda>k. if even k then 1 / 4 else 3 / 16) 0 = \<lparr>px = 4, py = 3\<rparr>"
  by (simp_all add: math_random_def is_double_consts drawnCell_def GRID_snake_def js_mul_consts)

lemma snake_reachable_startedWith:
  assumes "math_random rnd" "drawnCell rnd 0 = f" "f \<notin> set initialSnake"
  shows "snake_reachable (startedWith f)"
proof -
  note v = assms(1) and d = assms(2)
  have "randomFood rnd (set (map cellKey initialSnake)) = Some (drawnCell rnd 0)"
    by (rule randomFood_first_free) (simp_all add: d cellKey_mem assms(3) del: set_map)
  then have m: "mount_snake rnd =
      Some \<lparr>status = Idle, dir = Right, snake = initialSnake, food = f, score = 0, countdown = 3\<rparr>"
    by (simp add: mount_snake_def d)
  let ?s0 = "\<lparr>status = Idle, dir = Right, snake = initialSnake, food = f, score = 0, countdown = 3\<rparr>"
  have r0: "snake_reachable ?s0"
    by (rule snake_reachable.mounted[OF v m])
  have r1: "snake_reachable (beginCountdown ?s0)"
    by (rule snake_reachable.startButton[OF r0]) simp
  have r2: "snake_reachable (countdownStep (beginCountdown ?s0))"
    by (rule snake_reachable.counted[OF r1]) (simp add: beginCountdown_def)
  have r3: "snake_reachable (countdownStep (countdownStep (beginCountdown ?s0)))"
    by (rule snake_reachable.counted[OF r2]) (simp add: beginCountdown_def countdownStep_def)
  have r4: "snake_reachable (countdownStep (countdownStep (countdownStep (beginCountdown ?s0))))"
    by (rule snake_reachable.counted[OF r3]) (simp add: beginCountdown_def countdownStep_def)
  have "countdownStep (countdownStep (countdownStep (beginCountdown ?s0))) = startedWith f"
    by (simp add: beginCountdown_def countdownStep_def startRun_def startedWith_def)
  with r4 show ?thesis by simp
qed

text \<open>
  Claim C7. In a running game, a tick whose next head cell is outside the 18 by 18 grid
  or is a cell of the snake before the move, its tail included, sets the status to
  \<^verbatim>\<open>ended\<close> and changes nothing else: the snake is the same sequence.
\<close>

theorem tick_collision_ends:
  assumes "status st = Running" "snake st \<noteq> []"
  shows "(\<not> in_grid (nextHead st) \<or> nextHead st \<in> set (snake st) \<longrightarrow>
            tick rnd st = Some (Inr (st\<lparr>status := Ended\<rparr>)))
       \<and> (nextHead st = last (snake st) \<longrightarrow>
            tick rnd st = Some (Inr (st\<lparr>status := Ended\<rparr>)))
       \<and> status (st\<lparr>status := Ended\<rparr>) = Ended
       \<and> snake (st\<lparr>status := Ended\<rparr>) = snake st"
  using tick_collision[OF assms(2), of rnd] last_in_set[OF assms(2)] by auto

text \<open>
  A snake running up into the top wall, and a snake of four segments in a square
  running down into the cell of its own tail.
\<close>

theorem tick_collision_ends_witness:
  "tick (\<lambda>k. 0) \<lparr>status = Running, dir = Up,
             snake = [\<lparr>px = 3, py = 0\<rparr>, \<lparr>px = 3, py = 1\<rparr>, \<lparr>px = 3, py = 2\<rparr>],
             food = \<lparr>px = 9, py = 9\<rparr>, score = 0, countdown = 0\<rparr>
     = Some (Inr \<lparr>status = Ended, dir = Up,
             snake = [\<lparr>px = 3, py = 0\<rparr>, \<lparr>px = 3, py = 1\<rparr>, \<lparr>px = 3, py = 2\<rparr>],
             food = \<lparr>px = 9, py = 9\<rparr>, score = 0, countdown = 0\<rparr>)
   \<and> tick (\<lambda>k. 0) \<lparr>status = Running, dir = Down,
             snake = [\<lparr>px = 0, py = 0\<rparr>, \<lparr>px = 1, py = 0\<rparr>, \<lparr>px = 1, py = 1\<rparr>, \<lparr>px = 0, py = 1\<rparr>],
             food = \<lparr>px = 9, py = 9\<rparr>, score = 10, countdown = 0\<rparr>
     = Some (Inr \<lparr>status = Ended, dir = Down,
             snake = [\<lparr>px = 0, py = 0\<rparr>, \<lparr>px = 1, py = 0\<rparr>, \<lparr>px = 1, py = 1\<rparr>, \<lparr>px = 0, py = 1\<rparr>],
             food = \<lparr>px = 9, py = 9\<rparr>, score = 10, countdown = 0\<rparr>)"
  using tick_collision_ends[of "\<lparr>status = Running, dir = Up,
             snake = [\<lparr>px = 3, py = 0\<rparr>, \<lparr>px = 3, py = 1\<rparr>, \<lparr>px = 3, py = 2\<rparr>],
             food = \<lparr>px = 9, py = 9\<rparr>, score = 0, countdown = 0\<rparr>" "\<lambda>k. 0"]
    tick_collision_ends[of "\<lparr>status = Running, dir = Down,
             snake = [\<lparr>px = 0, py = 0\<rparr>, \<lparr>px = 1, py = 0\<rparr>, \<lparr>px = 1, py = 1\<rparr>, \<lparr>px = 0, py = 1\<rparr>],
             food = \<lparr>px = 9, py = 9\<rparr>, score = 10, countdown = 0\<rparr>" "\<lambda>k. 0"]
  by (simp add: nextHead_def delta_def in_grid_def)

lemma tick_length:
  assumes "snake st \<noteq> []" "tick rnd st = Some (Inr st')"
  shows "(snake st' = snake st \<and> status st' = Ended)
       \<or> (snake st' = nextHead st # butlast (snake st) \<and> length (snake st') = length (snake st))
       \<or> (snake st' = nextHead st # snake st \<and> nextHead st = food st
            \<and> length (snake st') = length (snake st) + 1)"
  using assms(2) unfolding tick_unfold[OF assms(1)] using assms(1)
  by (auto split: if_splits option.splits)

text \<open>
  Claim C10. In every state the page can reach, the segments of the snake are pairwise
  distinct cells of the 18 by 18 grid, and a tick that returns leaves the snake as it
  was (collision), or prepends the new head and drops the tail (same length), or
  prepends the new head and keeps the tail (length plus one); the length never
  decreases, and the tick never throws.
\<close>

theorem snake_invariant:
  assumes "snake_reachable st"
  shows "distinct (snake st) \<and> list_all in_grid (snake st)
       \<and> (\<forall>rnd st'. tick rnd st = Some (Inr st') \<longrightarrow>
             (snake st' = snake st \<and> status st' = Ended)
           \<or> (snake st' = nextHead st # butlast (snake st)
                \<and> length (snake st') = length (snake st))
           \<or> (snake st' = nextHead st # snake st \<and> nextHead st = food st
                \<and> length (snake st') = length (snake st) + 1))
       \<and> (\<forall>rnd st'. tick rnd st = Some (Inr st') \<longrightarrow>
             length (snake st) \<le> length (snake st') \<and> length (snake st') \<le> length (snake st) + 1)
       \<and> (\<forall>rnd e. tick rnd st \<noteq> Some (Inl e))"
proof -
  have inv: "snake_inv st"
    by (rule snake_reachable_inv[OF assms])
  then have ne: "snake st \<noteq> []"
    by (simp add: snake_inv_def)
  have "\<forall>rnd e. tick rnd st \<noteq> Some (Inl e)"
    unfolding tick_unfold[OF ne] by (auto split: option.splits)
  moreover have "\<forall>rnd st'. tick rnd st = Some (Inr st') \<longrightarrow>
             length (snake st) \<le> length (snake st') \<and> length (snake st') \<le> length (snake st) + 1"
    using tick_length[OF ne] by fastforce
  ultimately show ?thesis
    using inv tick_length[OF ne] by (simp add: snake_inv_def)
qed

text \<open>
  The running state after mounting and the countdown, with the food at \<open>(9, 9)\<close>: the
  snake moves one cell to the right and keeps its length of three.
\<close>

theorem snake_invariant_witness:
  "snake_reachable (startedWith \<lparr>px = 9, py = 9\<rparr>)
   \<and> distinct (snake (startedWith \<lparr>px = 9, py = 9\<rparr>))
   \<and> list_all in_grid (snake (startedWith \<lparr>px = 9, py = 9\<rparr>))
   \<and> tick (\<lambda>k. 0) (startedWith \<lparr>px = 9, py = 9\<rparr>)
       = Some (Inr ((startedWith \<lparr>px = 9, py = 9\<rparr>)
                     \<lparr>snake := [\<lparr>px = 4, py = 3\<rparr>, \<lparr>px = 3, py = 3\<rparr>, \<lparr>px = 2, py = 3\<rparr>]\<rparr>))
   \<and> length (snake (startedWith \<lparr>px = 9, py = 9\<rparr>)) = 3"
proof -
  let ?st = "startedWith \<lparr>px = 9, py = 9\<rparr>"
  have r: "snake_reachable ?st"
    by (rule snake_reachable_startedWith[OF half_stream]) (simp add: initialSnake_def)
  have t: "tick (\<lambda>k. 0) ?st
       = Some (Inr (?st\<lparr>snake := [\<lparr>px = 4, py = 3\<rparr>, \<lparr>px = 3, py = 3\<rparr>, \<lparr>px = 2, py = 3\<rparr>]\<rparr>))"
    by (simp add: tick_def startedWith_def initialSnake_def delta_def GRID_snake_def Let_def)
  from snake_invariant[OF r] t show ?thesis
    using r by (simp add: startedWith_def initialSnake_def)
qed

text \<open>
  Eating when the draws come to a free cell. In a running game that the page can reach,
  with the next head cell on the food and \<open>k\<close> the first round of \<^verbatim>\<open>randomFood\<close> whose
  cell is off the grown snake, the tick returns: the new snake is the food cell
  followed by the whole old snake, the score is ten higher, and the new food is the cell
  of round \<open>k\<close>, a cell of the grid that is not on the grown snake.
\<close>

lemma tick_eat_relocates:
  assumes "snake_reachable st" "status st = Running" "nextHead st = food st"
    and "math_random rnd"
    and "drawnCell rnd k \<notin> set (food st # snake st)"
    and "\<forall>j<k. drawnCell rnd j \<in> set (food st # snake st)"
  shows "\<exists>st'. tick rnd st = Some (Inr st')
       \<and> st' = st\<lparr>snake := food st # snake st, score := score st + 10, food := drawnCell rnd k\<rparr>
       \<and> length (snake st') = length (snake st) + 1
       \<and> food st' \<notin> set (snake st') \<and> in_grid (food st') \<and> status st' = Running"
proof -
  have inv: "snake_inv st"
    by (rule snake_reachable_inv[OF assms(1)])
  then have ne: "snake st \<noteq> []" and g: "in_grid (nextHead st)" and n: "nextHead st \<notin> set (snake st)"
    by (simp_all add: snake_inv_def assms(3))
  have free: "cellKey (drawnCell rnd k) \<notin> set (map cellKey (food st # snake st))"
    unfolding cellKey_mem by (rule assms(5))
  have before: "\<forall>j<k. cellKey (drawnCell rnd j) \<in> set (map cellKey (food st # snake st))"
    unfolding cellKey_mem by (rule assms(6))
  have "randomFood rnd (set (map cellKey (nextHead st # snake st))) = Some (drawnCell rnd k)"
    unfolding assms(3) by (rule randomFood_first_free[OF free before])
  then have "tick rnd st =
      Some (Inr (st\<lparr>snake := food st # snake st, score := score st + 10, food := drawnCell rnd k\<rparr>))"
    using tick_eat[OF ne g n assms(3), of rnd] by (simp add: assms(3))
  then show ?thesis
    using assms(2,5) drawnCell_in_grid[OF assms(4), of k] by simp
qed

text \<open>
  The example of the specification: the snake \<open>[(3,3), (2,3), (1,3)]\<close> moving right with
  the food at \<open>(4,3)\<close>, and draws of \<open>0.5\<close> that give the cell \<open>(9,9)\<close> in the first
  round.
\<close>

lemma tick_eat_example:
  "snake_reachable (startedWith \<lparr>px = 4, py = 3\<rparr>)
   \<and> tick (\<lambda>k. 1 / 2) (startedWith \<lparr>px = 4, py = 3\<rparr>)
       = Some (Inr \<lparr>status = Running, dir = Right,
                    snake = [\<lparr>px = 4, py = 3\<rparr>, \<lparr>px = 3, py = 3\<rparr>, \<lparr>px = 2, py = 3\<rparr>, \<lparr>px = 1, py = 3\<rparr>],
                    food = \<lparr>px = 9, py = 9\<rparr>, score = 10, countdown = 0\<rparr>)"
proof -
  let ?st = "startedWith \<lparr>px = 4, py = 3\<rparr>"
  have r: "snake_reachable ?st"
    by (rule snake_reachable_startedWith[OF quarter_stream]) (simp add: initialSnake_def)
  have "\<exists>st'. tick (\<lambda>k. 1 / 2) ?st = Some (Inr st')
       \<and> st' = ?st\<lparr>snake := food ?st # snake ?st, score := score ?st + 10,
                    food := drawnCell (\<lambda>k. 1 / 2) 0\<rparr>
       \<and> length (snake st') = length (snake ?st) + 1
       \<and> food st' \<notin> set (snake st') \<and> in_grid (food st') \<and> status st' = Running"
    by (rule tick_eat_relocates[OF r _ _ half_stream(1)])
       (simp_all add: half_stream(2) startedWith_def initialSnake_def nextHead_def delta_def)
  then show ?thesis
    using r by (simp add: half_stream(2) startedWith_def initialSnake_def)
qed

text \<open>
  Claim C6 at a full grid. In \<open>fullState\<close> the game is running, the snake has 323
  distinct segments in the grid, and the next head cell is the food, the last free cell.
  The grown snake covers all 324 cells, so \<^verbatim>\<open>randomFood\<close> finds every cell it draws
  occupied, whatever \<^verbatim>\<open>Math.random()\<close> returns: its loop has no exit, and the tick never
  returns. The snake does not grow, the score does not change and no food is placed.
\<close>

theorem tick_full_grid_never_returns:
  assumes "math_random rnd"
  shows "status fullState = Running \<and> snake_inv fullState \<and> length (snake fullState) = 323
       \<and> nextHead fullState = food fullState
       \<and> set (food fullState # snake fullState) = {p. in_grid p}
       \<and> randomFood rnd (set (map cellKey (nextHead fullState # snake fullState))) = None
       \<and> tick rnd fullState = None"
proof -
  have used: "\<forall>p. in_grid p \<longrightarrow> cellKey p \<in> set (map cellKey (nextHead fullState # snake fullState))"
    unfolding fullState_facts(2) fullState_facts(4) cellKey_mem using set_gridWalk by simp
  have all: "set (food fullState # snake fullState) = {p. in_grid p}"
    unfolding fullState_facts(4) using set_gridWalk by simp
  have rf: "randomFood rnd (set (map cellKey (nextHead fullState # snake fullState))) = None"
    by (rule randomFood_none_when_full[OF assms used])
  have st: "status fullState = Running"
    by (simp add: fullState_def)
  show ?thesis
    by (intro conjI st fullState_facts(6) fullState_facts(5) fullState_facts(2) all rf
        tick_fullState[OF assms])
qed

text \<open>The full grid with every draw \<open>0.5\<close>.\<close>

theorem tick_full_grid_never_returns_witness:
  "math_random (\<lambda>k. 1 / 2) \<and> tick (\<lambda>k. 1 / 2) fullState = None"
  using tick_full_grid_never_returns[OF half_stream(1)] half_stream(1) by simp

section \<open>Cards: the deal\<close>

lemma valid_rnd_shift: "valid_rnd rnd \<Longrightarrow> valid_rnd (\<lambda>k. rnd (k + n))"
  by (simp add: valid_rnd_def)

lemma draw_index_le:
  assumes "0 \<le> u" "u < 1"
  shows "nat \<lfloor>u * real (Suc i)\<rfloor> \<le> i"
proof -
  have "u * real (Suc i) < real (Suc i)"
    using assms by simp
  then have "\<lfloor>u * real (Suc i)\<rfloor> < int (Suc i)"
    by (simp add: floor_less_iff)
  then show ?thesis by simp
qed

lemma shuffle_loop_perm:
  assumes "valid_rnd rnd" "i < length a \<or> i = 0"
  shows "mset (shuffle_loop rnd i a) = mset a \<and> length (shuffle_loop rnd i a) = length a"
  using assms
proof (induction i arbitrary: rnd a)
  case 0
  then show ?case by simp
next
  case (Suc i)
  define j where "j = nat \<lfloor>rnd 0 * real (Suc i + 1)\<rfloor>"
  have j: "j \<le> Suc i"
    unfolding j_def using Suc.prems(1) draw_index_le[of "rnd 0" "Suc i"] by (simp add: valid_rnd_def)
  have i: "Suc i < length a"
    using Suc.prems(2) by simp
  let ?a = "a[Suc i := a ! j, j := a ! Suc i]"
  have sw: "mset ?a = mset a"
    using i j by (intro mset_swap) simp_all
  have "mset (shuffle_loop (\<lambda>k. rnd (k + 1)) i ?a) = mset ?a
      \<and> length (shuffle_loop (\<lambda>k. rnd (k + 1)) i ?a) = length ?a"
    using i by (intro Suc.IH valid_rnd_shift[OF Suc.prems(1)]) simp
  then show ?case
    using sw by (simp add: j_def Let_def)
qed

lemma shuffle_perm:
  assumes "valid_rnd rnd"
  shows "mset (shuffle rnd arr) = mset arr" "length (shuffle rnd arr) = length arr"
proof -
  have "length arr - 1 < length arr \<or> length arr - 1 = 0"
    by (cases arr) auto
  from shuffle_loop_perm[OF assms this] show "mset (shuffle rnd arr) = mset arr"
    "length (shuffle rnd arr) = length arr"
    by (simp_all add: shuffle_def)
qed

lemma makeDeckFor_fields:
  "map card_value (makeDeckFor n rnd) = shuffle rnd (map (\<lambda>i. i + 1) [0..<n] @ map (\<lambda>i. i + 1) [0..<n])"
  "map card_id (makeDeckFor n rnd)
     = [1..<Suc (length (shuffle rnd (map (\<lambda>i. i + 1) [0..<n] @ map (\<lambda>i. i + 1) [0..<n])))]"
  "list_all (\<lambda>c. \<not> matched c \<and> \<not> flipped c) (makeDeckFor n rnd)"
proof -
  let ?d = "shuffle rnd (map (\<lambda>i. i + 1) [0..<n] @ map (\<lambda>i. i + 1) [0..<n])"
  have e: "map snd (enumerate 0 ?d) = ?d" "map fst (enumerate 0 ?d) = [0..<length ?d]"
    by (simp_all add: enumerate_eq_zip)
  show "map card_value (makeDeckFor n rnd) = ?d"
    using e(1) by (simp add: makeDeckFor_def Let_def case_prod_unfold comp_def)
  have "map card_id (makeDeckFor n rnd) = map (\<lambda>x. Suc (fst x)) (enumerate 0 ?d)"
    by (simp add: makeDeckFor_def Let_def case_prod_unfold comp_def)
  also have "\<dots> = map Suc (map fst (enumerate 0 ?d))"
    by (simp only: map_map comp_def)
  also have "\<dots> = [1..<Suc (length ?d)]"
    unfolding e(2) by (simp add: map_Suc_upt)
  finally show "map card_id (makeDeckFor n rnd) = [1..<Suc (length ?d)]" .
  show "list_all (\<lambda>c. \<not> matched c \<and> \<not> flipped c) (makeDeckFor n rnd)"
    by (simp add: makeDeckFor_def Let_def list_all_iff case_prod_unfold)
qed

lemma base_twice_count:
  "count (mset (map (\<lambda>i. i + 1) [0..<n] @ map (\<lambda>i. i + 1) [0..<n])) v = (if 1 \<le> v \<and> v \<le> n then 2 else 0)"
proof -
  have "map (\<lambda>i. i + 1) [0..<n] = [1..<Suc n]"
    using map_Suc_upt[of 0 n] by simp
  then show ?thesis
    by (auto simp: mset_upt)
qed

lemma makeDeckFor_deal:
  assumes "valid_rnd rnd"
  shows "length (makeDeckFor n rnd) = 2 * n"
    and "mset (map card_value (makeDeckFor n rnd)) = mset ([1..<Suc n] @ [1..<Suc n])"
    and "count_list (map card_value (makeDeckFor n rnd)) v = (if 1 \<le> v \<and> v \<le> n then 2 else 0)"
    and "map card_id (makeDeckFor n rnd) = [1..<Suc (2 * n)]"
proof -
  let ?b = "map (\<lambda>i. i + 1) [0..<n] @ map (\<lambda>i. i + 1) [0..<n]"
  have b: "map (\<lambda>i. i + 1) [0..<n] = [1..<Suc n]"
    using map_Suc_upt[of 0 n] by simp
  have l: "length (shuffle rnd ?b) = 2 * n"
    using shuffle_perm(2)[OF assms, of ?b] by simp
  have "length (map card_value (makeDeckFor n rnd)) = 2 * n"
    unfolding makeDeckFor_fields(1) by (rule l)
  then show "length (makeDeckFor n rnd) = 2 * n" by simp
  show m: "mset (map card_value (makeDeckFor n rnd)) = mset ([1..<Suc n] @ [1..<Suc n])"
    unfolding makeDeckFor_fields(1) shuffle_perm(1)[OF assms] b ..
  have "count (mset (map card_value (makeDeckFor n rnd))) v = (if 1 \<le> v \<and> v \<le> n then 2 else 0)"
    unfolding makeDeckFor_fields(1) shuffle_perm(1)[OF assms] by (rule base_twice_count)
  then show "count_list (map card_value (makeDeckFor n rnd)) v = (if 1 \<le> v \<and> v \<le> n then 2 else 0)"
    by (simp only: count_mset)
  show "map card_id (makeDeckFor n rnd) = [1..<Suc (2 * n)]"
    unfolding makeDeckFor_fields(2) l ..
qed

section \<open>Cards: flipping and resolving\<close>

lemma pairKey_None_iff: "pairKey d = None \<longleftrightarrow> length (flippedNow d) \<noteq> 2"
  by (auto simp: pairKey_def split: list.splits)

lemma pairKey_Some:
  assumes "flippedNow d = [a, b]"
  shows "pairKey d = Some (if card_id a < card_id b then (card_id a, card_id b)
                            else (card_id b, card_id a))"
  using assms by (simp add: pairKey_def)

lemma pairKey_SomeD:
  assumes "pairKey d = Some k"
  obtains a b where "flippedNow d = [a, b]"
    "k = (if card_id a < card_id b then (card_id a, card_id b) else (card_id b, card_id a))"
  using assms by (auto simp: pairKey_def split: list.splits)

lemma flippedNow_pair:
  assumes "flippedNow d = [a, b]"
  shows "a \<in> set d" "b \<in> set d" "flipped a" "\<not> matched a" "flipped b" "\<not> matched b"
    and "\<And>c. c \<in> set d \<Longrightarrow> flipped c \<Longrightarrow> \<not> matched c \<Longrightarrow> c = a \<or> c = b"
proof -
  have s: "set (flippedNow d) = {a, b}"
    by (simp add: assms)
  then have "a \<in> set (flippedNow d)" "b \<in> set (flippedNow d)" by simp_all
  then show "a \<in> set d" "b \<in> set d" "flipped a" "\<not> matched a" "flipped b" "\<not> matched b"
    by (simp_all add: flippedNow_def)
  fix c assume "c \<in> set d" "flipped c" "\<not> matched c"
  then have "c \<in> set (flippedNow d)" by (simp add: flippedNow_def)
  then show "c = a \<or> c = b" unfolding s by simp
qed

lemma card_by_id:
  assumes "distinct (map card_id d)" "c \<in> set d" "c' \<in> set d" "card_id c = card_id c'"
  shows "c = c'"
  using assms by (meson distinct_map inj_onD)

lemma find_by_id:
  assumes "c \<in> set d"
  shows "\<exists>c'. find (\<lambda>x. card_id x = card_id c) d = Some c' \<and> c' \<in> set d \<and> card_id c' = card_id c"
  using assms by (induction d) auto

lemma find_by_id_distinct:
  assumes "distinct (map card_id d)" "c \<in> set d"
  shows "find (\<lambda>x. card_id x = card_id c) d = Some c"
  using find_by_id[OF assms(2)] card_by_id[OF assms(1) _ assms(2)] by auto

lemma find_SomeD:
  "find P xs = Some x \<Longrightarrow> x \<in> set xs \<and> P x"
  by (induction xs) (auto split: if_splits)

lemma flippedNow_after_flip:
  assumes "distinct (map card_id d)" "find (\<lambda>c. card_id c = i) d = Some t"
    "\<not> flipped t" "\<not> matched t"
  shows "length (flippedNow (map (\<lambda>c. if card_id c = i then c\<lparr>flipped := True\<rparr> else c) d))
       = Suc (length (flippedNow d))"
  using assms
proof (induction d)
  case Nil
  then show ?case by simp
next
  case (Cons c cs)
  show ?case
  proof (cases "card_id c = i")
    case True
    then have t: "t = c" using Cons.prems(2) by simp
    have "i \<notin> card_id ` set cs"
      using Cons.prems(1) True by auto
    then have "\<forall>x\<in>set cs. card_id x \<noteq> i"
      by blast
    then have "map (\<lambda>c. if card_id c = i then c\<lparr>flipped := True\<rparr> else c) cs = cs"
      by (induction cs) auto
    then show ?thesis
      using True t Cons.prems(3,4) by (simp add: flippedNow_def)
  next
    case False
    then have "find (\<lambda>c. card_id c = i) cs = Some t" using Cons.prems(2) by simp
    then have "length (flippedNow (map (\<lambda>c. if card_id c = i then c\<lparr>flipped := True\<rparr> else c) cs))
       = Suc (length (flippedNow cs))"
      using Cons.IH Cons.prems(1,3,4) by simp
    then show ?thesis
      using False by (simp add: flippedNow_def)
  qed
qed

lemma ids_after_flip:
  "map card_id (map (\<lambda>c. if card_id c = i then c\<lparr>flipped := True\<rparr> else c) d) = map card_id d"
  by (induction d) auto

lemma ids_after_resolve:
  "map card_id (map (resolveCard id1 id2 m) d) = map card_id d"
  by (induction d) (auto simp: resolveCard_def)

lemma resolve_pair:
  assumes "distinct (map card_id d)" "flippedNow d = [a, b]"
    "{id1, id2} = {card_id a, card_id b}"
  shows "map (resolveCard id1 id2 m) d
       = map (\<lambda>c. if c = a \<or> c = b then (if m then c\<lparr>matched := True\<rparr> else c\<lparr>flipped := False\<rparr>)
                   else c) d"
proof (rule map_cong[OF refl])
  fix c assume c: "c \<in> set d"
  note p = flippedNow_pair[OF assms(2)]
  have "card_id c = id1 \<or> card_id c = id2 \<longleftrightarrow> c = a \<or> c = b"
  proof
    assume "card_id c = id1 \<or> card_id c = id2"
    then have "card_id c = card_id a \<or> card_id c = card_id b"
      using assms(3) by auto
    then show "c = a \<or> c = b"
      using card_by_id[OF assms(1) c p(1)] card_by_id[OF assms(1) c p(2)] by blast
  next
    assume "c = a \<or> c = b"
    then show "card_id c = id1 \<or> card_id c = id2"
      using assms(3) by auto
  qed
  then show "resolveCard id1 id2 m c
      = (if c = a \<or> c = b then (if m then c\<lparr>matched := True\<rparr> else c\<lparr>flipped := False\<rparr>) else c)"
    by (simp add: resolveCard_def)
qed

lemma flippedNow_after_resolve:
  assumes "distinct (map card_id d)" "flippedNow d = [a, b]"
    "{id1, id2} = {card_id a, card_id b}"
  shows "flippedNow (map (resolveCard id1 id2 m) d) = []"
proof -
  note p = flippedNow_pair[OF assms(2)]
  have "\<forall>c\<in>set d. \<not> (flipped (if c = a \<or> c = b then (if m then c\<lparr>matched := True\<rparr> else c\<lparr>flipped := False\<rparr>) else c)
        \<and> \<not> matched (if c = a \<or> c = b then (if m then c\<lparr>matched := True\<rparr> else c\<lparr>flipped := False\<rparr>) else c))"
    using p(7) by auto
  then have "\<forall>x\<in>set (map (\<lambda>c. if c = a \<or> c = b
          then (if m then c\<lparr>matched := True\<rparr> else c\<lparr>flipped := False\<rparr>) else c) d).
        \<not> (flipped x \<and> \<not> matched x)"
    unfolding set_map by blast
  then show ?thesis
    unfolding resolve_pair[OF assms] flippedNow_def filter_empty_conv .
qed

lemma flipApplied_unfold:
  "flipApplied i st =
     (if busyRef st \<or> busy st \<or> \<not> running st then st
      else (case find (\<lambda>c. card_id c = i) (deck st) of
              None \<Rightarrow> st
            | Some target \<Rightarrow>
                if flipped target \<or> matched target then st
                else (let next = map (\<lambda>c. if card_id c = i then c\<lparr>flipped := True\<rparr> else c) (deck st)
                      in if length (flippedNow next) = 2
                         then (setBusyState True st)\<lparr>deck := next\<rparr>
                         else st\<lparr>deck := next\<rparr>)))"
  by (simp add: flipApplied_def flipUpdater_def Let_def split: option.splits)

lemma click_rendered:
  "view (render (handleFlip eager i \<lparr>view = st, deckQueue = []\<rparr>)) = flipApplied i st"
  by (cases eager)
     (auto simp: handleFlip_def setDeckFlip_def render_def flipApplied_def split: prod.splits option.splits)

lemma clicks_single: "clicks [(eager, i)] st = afterRender (flipApplied i st)"
  by (simp add: clicks_def click_rendered)

section \<open>Cards: the invariant\<close>

lemma cards_inv_pre_effect: "cards_inv st \<Longrightarrow> pre_effect st"
  by (auto simp: cards_inv_def pre_effect_def split: option.splits)

lemma pairEffect_inv:
  assumes "pre_effect st"
  shows "\<exists>st'. pairEffect st = Inr st' \<and> cards_inv st' \<and> deck st' = deck st
           \<and> running st' = running st"
proof (cases "pairKey (deck st)")
  case None
  then show ?thesis
    using assms by (auto simp: pairEffect_def pre_effect_def cards_inv_def setBusyState_def Let_def)
next
  case (Some k)
  then obtain a b where ab: "flippedNow (deck st) = [a, b]"
    and k: "k = (if card_id a < card_id b then (card_id a, card_id b) else (card_id b, card_id a))"
    by (rule pairKey_SomeD)
  obtain id1 id2 where ids: "k = (id1, id2)" by (cases k)
  have "{id1, id2} = {card_id a, card_id b}"
    using k ids by (auto split: if_splits)
  then obtain c1 c2 where c: "c1 \<in> set (deck st)" "c2 \<in> set (deck st)" "id1 = card_id c1" "id2 = card_id c2"
    using flippedNow_pair(1,2)[OF ab] by (metis doubleton_eq_iff)
  obtain f1 f2 where f: "find (\<lambda>x. card_id x = id1) (deck st) = Some f1"
      "find (\<lambda>x. card_id x = id2) (deck st) = Some f2"
    using find_by_id[OF c(1)] find_by_id[OF c(2)] c(3,4) by auto
  show ?thesis
  proof (cases "lastPairRef st = Some k")
    case True
    then have "pairEffect st = Inr st"
      using Some ids by (simp add: pairEffect_def)
    moreover have "cards_inv st"
      using assms Some True by (auto simp: pre_effect_def cards_inv_def)
    ultimately show ?thesis by simp
  next
    case False
    then have "pairEffect st
        = Inr ((setBusyState True (st\<lparr>lastPairRef := Some (id1, id2)\<rparr>))
                 \<lparr>moves := moves st + 1, timerRef := Some (id1, id2, card_value f1 = card_value f2)\<rparr>)"
      using Some ids f by (simp add: pairEffect_def)
    moreover have "cards_inv ((setBusyState True (st\<lparr>lastPairRef := Some (id1, id2)\<rparr>))
                 \<lparr>moves := moves st + 1, timerRef := Some (id1, id2, card_value f1 = card_value f2)\<rparr>)"
      using assms Some ids by (simp add: pre_effect_def cards_inv_def setBusyState_def)
    ultimately show ?thesis by (simp add: setBusyState_def)
  qed
qed

lemma winEffect_inv: "cards_inv st \<Longrightarrow> cards_inv (winEffect st)"
  by (auto simp: winEffect_def cards_inv_def split: option.splits)

lemma winEffect_deck: "deck (winEffect st) = deck st"
  by (simp add: winEffect_def)

lemma afterRender_deck:
  assumes "afterRender st = Inr st'"
  shows "deck st' = deck st"
proof -
  from assms obtain st1 where 1: "pairEffect st = Inr st1" and 2: "st' = winEffect st1"
    by (auto simp: afterRender_def bindE_def split: sum.splits)
  have "deck st1 = deck st"
    using 1 by (auto simp: pairEffect_def setBusyState_def Let_def split: option.splits if_splits prod.splits)
  then show ?thesis by (simp add: 2 winEffect_deck)
qed

lemma afterRender_inv:
  assumes "pre_effect st"
  shows "\<exists>st'. afterRender st = Inr st' \<and> cards_inv st'"
proof -
  from pairEffect_inv[OF assms] obtain st1 where "pairEffect st = Inr st1" "cards_inv st1" by blast
  then show ?thesis
    by (auto simp: afterRender_def bindE_def intro: winEffect_inv)
qed

lemma pre_effect_reset:
  assumes "valid_rnd rnd"
  shows "pre_effect (reset_cards p rnd st)"
proof -
  obtain n where d: "deck (reset_cards p rnd st) = makeDeckFor n rnd"
    by (simp add: reset_cards_def setBusyState_def Let_def)
  have f: "flippedNow (makeDeckFor n rnd) = []"
    using makeDeckFor_fields(3)[of n rnd] by (auto simp: flippedNow_def filter_empty_conv list_all_iff)
  have "distinct (map card_id (makeDeckFor n rnd))"
    unfolding makeDeckFor_deal(4)[OF assms] by simp
  then show ?thesis
    unfolding pre_effect_def d f by (simp add: reset_cards_def setBusyState_def Let_def pairKey_def f)
qed

lemma pre_effect_flip:
  assumes "cards_inv st"
  shows "pre_effect (flipApplied i st)"
proof (cases "flipApplied i st = st")
  case True
  then show ?thesis using assms by (simp add: cards_inv_pre_effect)
next
  case False
  then have nb: "\<not> busy st" "\<not> busyRef st"
    by (auto simp: flipApplied_unfold)
  from False obtain t where t: "find (\<lambda>c. card_id c = i) (deck st) = Some t" "\<not> flipped t" "\<not> matched t"
    by (auto simp: flipApplied_unfold split: option.splits if_splits)
  let ?next = "map (\<lambda>c. if card_id c = i then c\<lparr>flipped := True\<rparr> else c) (deck st)"
  have d: "distinct (map card_id (deck st))"
    using assms by (simp add: cards_inv_def)
  have none: "pairKey (deck st) = None" and le: "length (flippedNow (deck st)) \<le> 1"
    and lp: "lastPairRef st = None"
    using assms nb by (auto simp: cards_inv_def split: option.splits)
  have d': "distinct (map card_id ?next)"
    unfolding ids_after_flip by (rule d)
  have len: "length (flippedNow ?next) = Suc (length (flippedNow (deck st)))"
    by (rule flippedNow_after_flip[OF d t])
  have hf: "flipApplied i st = (if length (flippedNow ?next) = 2
                         then (setBusyState True st)\<lparr>deck := ?next\<rparr>
                         else st\<lparr>deck := ?next\<rparr>)"
    using nb t False by (auto simp: flipApplied_unfold Let_def split: if_splits)
  show ?thesis
  proof (cases "length (flippedNow ?next) = 2")
    case True
    then obtain k where "pairKey ?next = Some k"
      using pairKey_None_iff[of ?next] by auto
    then show ?thesis
      using True d' lp by (simp add: hf pre_effect_def setBusyState_def)
  next
    case False
    then have "pairKey ?next = None"
      using pairKey_None_iff[of ?next] by simp
    moreover have "length (flippedNow ?next) \<le> 1"
      using False len le by linarith
    ultimately have "pairKey ?next = None" "length (flippedNow ?next) \<le> 1" .
    then show ?thesis
      using False d' nb by (simp add: hf pre_effect_def)
  qed
qed

lemma pre_effect_resolve:
  assumes "cards_inv st" "timerRef st \<noteq> None"
  shows "pre_effect (resolveTimeout st)"
proof -
  from assms obtain k m where k: "pairKey (deck st) = Some k" "timerRef st = Some (fst k, snd k, m)"
    by (auto simp: cards_inv_def split: option.splits)
  from k(1) obtain a b where ab: "flippedNow (deck st) = [a, b]"
    and kk: "k = (if card_id a < card_id b then (card_id a, card_id b) else (card_id b, card_id a))"
    by (rule pairKey_SomeD)
  have ids: "{fst k, snd k} = {card_id a, card_id b}"
    using kk by (auto split: if_splits)
  have d: "distinct (map card_id (deck st))"
    using assms(1) by (simp add: cards_inv_def)
  have f: "flippedNow (map (resolveCard (fst k) (snd k) m) (deck st)) = []"
    by (rule flippedNow_after_resolve[OF d ab ids])
  have d': "distinct (map card_id (map (resolveCard (fst k) (snd k) m) (deck st)))"
    unfolding ids_after_resolve by (rule d)
  show ?thesis
    using d' by (simp add: resolveTimeout_def k(2) pre_effect_def setBusyState_def pairKey_def f)
qed

lemma cards_reachable_inv:
  assumes "cards_reachable st"
  shows "cards_inv st"
  using assms
proof (induction rule: cards_reachable.induct)
  case (dealt rnd st)
  then show ?case
    using afterRender_inv[OF pre_effect_reset[OF dealt(1), of None initial_cards]] by fastforce
next
  case (redealt st rnd st')
  then show ?case
    using afterRender_inv[OF pre_effect_reset[OF redealt(2), of None st]] by fastforce
next
  case (selected st rnd n st')
  then show ?case
    unfolding selectPairs_def
    using afterRender_inv[OF pre_effect_reset[OF selected(2), of "Some n" "st\<lparr>pairs := n\<rparr>"]]
    by fastforce
next
  case (clicked st eager i st')
  then show ?case
    unfolding clicks_single
    using afterRender_inv[OF pre_effect_flip, of st i] by fastforce
next
  case (resolved st st')
  then show ?case
    using afterRender_inv[OF pre_effect_resolve, of st] by fastforce
qed

section \<open>Cards: rejected flips, the deal and the resolution\<close>

lemma valid_rnd_zero: "valid_rnd (\<lambda>k. 0)"
  by (simp add: valid_rnd_def)

lemma zero_deal_reachable:
  "cards_reachable (openPage [])"
  "cards_reachable (openPage [1])"
  "cards_reachable \<lparr>deck = zeroDeal [1, 2] [], busy = True, busyRef = True, moves = 1,
      running = True, pairs = 8, lastPairRef = Some (1, 2), timerRef = Some (1, 2, False)\<rparr>"
  "cards_reachable \<lparr>deck = zeroDeal [1, 9] [], busy = True, busyRef = True, moves = 1,
      running = True, pairs = 8, lastPairRef = Some (1, 9), timerRef = Some (1, 9, True)\<rparr>"
proof -
  have "afterRender (reset_cards None (\<lambda>k. 0) initial_cards) = Inr (openPage [])"
    by code_simp
  then show r0: "cards_reachable (openPage [])"
    by (rule cards_reachable.dealt[OF valid_rnd_zero])
  have "clicks [(True, 1)] (openPage []) = Inr (openPage [1])"
    by code_simp
  then show r1: "cards_reachable (openPage [1])"
    by (rule cards_reachable.clicked[OF r0])
  have "clicks [(True, 2)] (openPage [1]) = Inr \<lparr>deck = zeroDeal [1, 2] [], busy = True, busyRef = True,
      moves = 1, running = True, pairs = 8, lastPairRef = Some (1, 2), timerRef = Some (1, 2, False)\<rparr>"
    by code_simp
  then show "cards_reachable \<lparr>deck = zeroDeal [1, 2] [], busy = True, busyRef = True, moves = 1,
      running = True, pairs = 8, lastPairRef = Some (1, 2), timerRef = Some (1, 2, False)\<rparr>"
    by (rule cards_reachable.clicked[OF r1])
  have "clicks [(True, 9)] (openPage [1]) = Inr \<lparr>deck = zeroDeal [1, 9] [], busy = True, busyRef = True,
      moves = 1, running = True, pairs = 8, lastPairRef = Some (1, 9), timerRef = Some (1, 9, True)\<rparr>"
    by code_simp
  then show "cards_reachable \<lparr>deck = zeroDeal [1, 9] [], busy = True, busyRef = True, moves = 1,
      running = True, pairs = 8, lastPairRef = Some (1, 9), timerRef = Some (1, 9, True)\<rparr>"
    by (rule cards_reachable.clicked[OF r1])
qed

text \<open>
  With a render after every event. In every state the page can then reach, a click on a
  card while two unmatched cards are face up, or while the game is not running, or on a
  card that is already face up or matched, changes nothing: the state at the next render
  is the same, and so is the deck after the effects. At most two unmatched cards are
  face up.
\<close>

lemma flip_rejected_between_renders:
  assumes "cards_reachable st"
  shows "(length (flippedNow (deck st)) = 2 \<or> \<not> running st
          \<or> (\<exists>t. find (\<lambda>c. card_id c = i) (deck st) = Some t \<and> (flipped t \<or> matched t)) \<longrightarrow>
            flipApplied i st = st
            \<and> (\<forall>eager st'. clicks [(eager, i)] st = Inr st' \<longrightarrow> deck st' = deck st))
       \<and> length (flippedNow (deck st)) \<le> 2"
proof -
  have inv: "cards_inv st"
    by (rule cards_reachable_inv[OF assms])
  have two: "busy st" if "length (flippedNow (deck st)) = 2"
  proof -
    from that obtain k where "pairKey (deck st) = Some k"
      using pairKey_None_iff[of "deck st"] by auto
    with inv show ?thesis by (auto simp: cards_inv_def)
  qed
  have le: "length (flippedNow (deck st)) \<le> 2"
  proof (cases "pairKey (deck st)")
    case None
    with inv show ?thesis by (simp add: cards_inv_def)
  next
    case (Some k)
    then show ?thesis using pairKey_None_iff[of "deck st"] by simp
  qed
  have rej: "flipApplied i st = st"
    if "length (flippedNow (deck st)) = 2 \<or> \<not> running st
          \<or> (\<exists>t. find (\<lambda>c. card_id c = i) (deck st) = Some t \<and> (flipped t \<or> matched t))"
    using that two by (auto simp: flipApplied_unfold)
  show ?thesis
    unfolding clicks_single using rej le afterRender_deck by metis
qed

text \<open>
  Claim C3 for clicks that come before the next render. The page has dealt eight pairs
  with every draw 0 and is running. \<^verbatim>\<open>handleFlip\<close> is called for the cards 1, 2 and 3
  before React renders again. The first two calls leave two unmatched cards face up at
  the next render, but the lock is written by the updater of the second call, which has
  not run when the third call reads it: the third call is accepted, whatever React
  chooses for each call. After the render three unmatched cards are face up, the
  effect finds no pair and opens the lock, and a click on card 4 turns a fourth card.
\<close>

theorem flips_before_render_accepted:
  "afterRender (reset_cards None (\<lambda>k. 0) initial_cards) = Inr (openPage [])
   \<and> (\<forall>e1 e2 e3.
         (let pg = handleFlip e2 2 (handleFlip e1 1 \<lparr>view = openPage [], deckQueue = []\<rparr>)
          in map card_id (flippedNow (deck (view (render pg)))) = [1, 2]
             \<and> handleFlip e3 3 pg \<noteq> pg
             \<and> map card_id (flippedNow (deck (view (render (handleFlip e3 3 pg))))) = [1, 2, 3]))
   \<and> (\<forall>e1 e2 e3. clicks [(e1, 1), (e2, 2), (e3, 3)] (openPage []) = Inr (openPage [1, 2, 3]))
   \<and> map card_id (flippedNow (deck (openPage [1, 2, 3]))) = [1, 2, 3]
   \<and> \<not> busyRef (openPage [1, 2, 3]) \<and> \<not> busy (openPage [1, 2, 3]) \<and> running (openPage [1, 2, 3])
   \<and> (\<forall>e. clicks [(e, 4)] (openPage [1, 2, 3]) = Inr (openPage [1, 2, 3, 4]))
   \<and> map card_id (flippedNow (deck (openPage [1, 2, 3, 4]))) = [1, 2, 3, 4]"
  by code_simp

text \<open>
  The same with the first update computed at the call and the others left to the
  render.
\<close>

theorem flips_before_render_accepted_witness:
  "clicks [(True, 1), (False, 2), (False, 3)] (openPage []) = Inr (openPage [1, 2, 3])
   \<and> clicks [(True, 4)] (openPage [1, 2, 3]) = Inr (openPage [1, 2, 3, 4])"
  using flips_before_render_accepted by blast

lemma arm_and_resolve:
  assumes "distinct (map card_id (deck st))" "flippedNow (deck st) = [a, b]" "lastPairRef st = None"
  shows "\<exists>st1. pairEffect st = Inr st1 \<and> timerRef st1 \<noteq> None \<and> busy st1 \<and> busyRef st1
           \<and> moves st1 = moves st + 1
           \<and> deck (resolveTimeout st1)
               = map (\<lambda>c. if c = a \<or> c = b
                           then (if card_value a = card_value b then c\<lparr>matched := True\<rparr>
                                 else c\<lparr>flipped := False\<rparr>)
                           else c) (deck st)
           \<and> \<not> busy (resolveTimeout st1) \<and> \<not> busyRef (resolveTimeout st1)"
proof -
  note p = flippedNow_pair[OF assms(2)]
  define id1 where "id1 = (if card_id a < card_id b then card_id a else card_id b)"
  define id2 where "id2 = (if card_id a < card_id b then card_id b else card_id a)"
  define c1 where "c1 = (if card_id a < card_id b then a else b)"
  define c2 where "c2 = (if card_id a < card_id b then b else a)"
  have k: "pairKey (deck st) = Some (id1, id2)"
    unfolding pairKey_Some[OF assms(2)] id1_def id2_def by simp
  have ids: "{id1, id2} = {card_id a, card_id b}"
    by (auto simp: id1_def id2_def)
  have f: "find (\<lambda>x. card_id x = id1) (deck st) = Some c1"
          "find (\<lambda>x. card_id x = id2) (deck st) = Some c2"
    using find_by_id_distinct[OF assms(1) p(1)] find_by_id_distinct[OF assms(1) p(2)]
    by (auto simp: id1_def id2_def c1_def c2_def)
  have m: "(card_value c1 = card_value c2) = (card_value a = card_value b)"
    by (auto simp: c1_def c2_def)
  let ?st1 = "(setBusyState True (st\<lparr>lastPairRef := Some (id1, id2)\<rparr>))
                 \<lparr>moves := moves st + 1, timerRef := Some (id1, id2, card_value a = card_value b)\<rparr>"
  have e: "pairEffect st = Inr ?st1"
    using k f m assms(3) by (simp add: pairEffect_def)
  have "deck (resolveTimeout ?st1) = map (resolveCard id1 id2 (card_value a = card_value b)) (deck st)"
    by (simp add: resolveTimeout_def setBusyState_def)
  also have "\<dots> = map (\<lambda>c. if c = a \<or> c = b
                           then (if card_value a = card_value b then c\<lparr>matched := True\<rparr>
                                 else c\<lparr>flipped := False\<rparr>)
                           else c) (deck st)"
    by (rule resolve_pair[OF assms(1,2) ids])
  finally show ?thesis
    using e by (simp add: setBusyState_def resolveTimeout_def)
qed

text \<open>
  Claim C8. For every pair count \<open>n\<close> the deck that \<^verbatim>\<open>makeDeckFor\<close> deals has \<open>2n\<close> cards,
  its values are a permutation of \<open>1..n\<close> taken twice (each value of \<open>1..n\<close> occurs
  exactly twice, no other value occurs), and every card is unmatched and face down.
  When exactly two unmatched cards \<open>a\<close> and \<open>b\<close> are face up, the effect arms the
  timeout and the timeout resolves the pair: with equal values both cards become
  matched (and stay face up), with unequal values both are turned face down; every
  other card is untouched.
\<close>

theorem deal_and_resolve:
  assumes "valid_rnd rnd"
  shows "length (makeDeckFor n rnd) = 2 * n
       \<and> mset (map card_value (makeDeckFor n rnd)) = mset ([1..<Suc n] @ [1..<Suc n])
       \<and> (\<forall>v. count_list (map card_value (makeDeckFor n rnd)) v = (if 1 \<le> v \<and> v \<le> n then 2 else 0))
       \<and> list_all (\<lambda>c. \<not> matched c \<and> \<not> flipped c) (makeDeckFor n rnd)
       \<and> (\<forall>st a b. distinct (map card_id (deck st)) \<and> flippedNow (deck st) = [a, b]
              \<and> lastPairRef st = None \<longrightarrow>
            flipped a \<and> flipped b
            \<and> (\<exists>st1. pairEffect st = Inr st1 \<and> timerRef st1 \<noteq> None
                 \<and> deck (resolveTimeout st1)
                     = map (\<lambda>c. if c = a \<or> c = b
                                 then (if card_value a = card_value b then c\<lparr>matched := True\<rparr>
                                       else c\<lparr>flipped := False\<rparr>)
                                 else c) (deck st)))"
proof -
  have "\<forall>st a b. distinct (map card_id (deck st)) \<and> flippedNow (deck st) = [a, b]
              \<and> lastPairRef st = None \<longrightarrow>
            flipped a \<and> flipped b
            \<and> (\<exists>st1. pairEffect st = Inr st1 \<and> timerRef st1 \<noteq> None
                 \<and> deck (resolveTimeout st1)
                     = map (\<lambda>c. if c = a \<or> c = b
                                 then (if card_value a = card_value b then c\<lparr>matched := True\<rparr>
                                       else c\<lparr>flipped := False\<rparr>)
                                 else c) (deck st))"
  proof (intro allI impI)
    fix st :: CardsState and a b
    assume h: "distinct (map card_id (deck st)) \<and> flippedNow (deck st) = [a, b] \<and> lastPairRef st = None"
    then have "flipped a" "flipped b"
      using flippedNow_pair(3,5)[of "deck st" a b] by simp_all
    moreover from h have h': "distinct (map card_id (deck st))" "flippedNow (deck st) = [a, b]"
      "lastPairRef st = None" by simp_all
    from arm_and_resolve[OF h'] obtain st1 where "pairEffect st = Inr st1" "timerRef st1 \<noteq> None"
      "deck (resolveTimeout st1)
         = map (\<lambda>c. if c = a \<or> c = b
                     then (if card_value a = card_value b then c\<lparr>matched := True\<rparr>
                           else c\<lparr>flipped := False\<rparr>)
                     else c) (deck st)"
      by auto
    then have "\<exists>st1. pairEffect st = Inr st1 \<and> timerRef st1 \<noteq> None
                 \<and> deck (resolveTimeout st1)
                     = map (\<lambda>c. if c = a \<or> c = b
                                 then (if card_value a = card_value b then c\<lparr>matched := True\<rparr>
                                       else c\<lparr>flipped := False\<rparr>)
                                 else c) (deck st)"
      by (intro exI[of _ st1] conjI)
    ultimately show "flipped a \<and> flipped b
            \<and> (\<exists>st1. pairEffect st = Inr st1 \<and> timerRef st1 \<noteq> None
                 \<and> deck (resolveTimeout st1)
                     = map (\<lambda>c. if c = a \<or> c = b
                                 then (if card_value a = card_value b then c\<lparr>matched := True\<rparr>
                                       else c\<lparr>flipped := False\<rparr>)
                                 else c) (deck st))"
      by blast
  qed
  then show ?thesis
    using makeDeckFor_deal(1,2,3)[OF assms, of n] makeDeckFor_fields(3)[of n rnd] by blast
qed


text \<open>
  The deal for eight pairs with all draws 0, then the two resolutions: cards 1 and 2
  (values 2 and 3) go back face down, cards 1 and 9 (both of value 2) become matched.
\<close>

theorem deal_and_resolve_witness:
  "valid_rnd (\<lambda>k. 0)
   \<and> length (makeDeckFor 8 (\<lambda>k. 0)) = 16
   \<and> makeDeckFor 8 (\<lambda>k. 0) = zeroDeal [] []
   \<and> (\<exists>st1. pairEffect \<lparr>deck = zeroDeal [1, 2] [], busy = True, busyRef = True, moves = 0,
                running = True, pairs = 8, lastPairRef = None, timerRef = None\<rparr> = Inr st1
            \<and> deck (resolveTimeout st1) = zeroDeal [] [])
   \<and> (\<exists>st1. pairEffect \<lparr>deck = zeroDeal [1, 9] [], busy = True, busyRef = True, moves = 0,
                running = True, pairs = 8, lastPairRef = None, timerRef = None\<rparr> = Inr st1
            \<and> deck (resolveTimeout st1) = zeroDeal [] [1, 9])"
proof -
  note t = deal_and_resolve[OF valid_rnd_zero, of 8]
  have len: "length (makeDeckFor 8 (\<lambda>k. 0)) = 16"
    using t by simp
  have deal: "makeDeckFor 8 (\<lambda>k. 0) = zeroDeal [] []"
    by code_simp
  let ?c1 = "\<lparr>card_id = 1, card_value = 2, matched = False, flipped = True\<rparr>"
  let ?c2 = "\<lparr>card_id = 2, card_value = 3, matched = False, flipped = True\<rparr>"
  let ?c9 = "\<lparr>card_id = 9, card_value = 2, matched = False, flipped = True\<rparr>"
  let ?s12 = "\<lparr>deck = zeroDeal [1, 2] [], busy = True, busyRef = True, moves = 0,
                running = True, pairs = 8, lastPairRef = None, timerRef = None\<rparr>"
  let ?s19 = "\<lparr>deck = zeroDeal [1, 9] [], busy = True, busyRef = True, moves = 0,
                running = True, pairs = 8, lastPairRef = None, timerRef = None\<rparr>"
  have d12: "distinct (map card_id (deck ?s12)) \<and> flippedNow (deck ?s12) = [?c1, ?c2]
      \<and> lastPairRef ?s12 = None"
    by code_simp
  have d19: "distinct (map card_id (deck ?s19)) \<and> flippedNow (deck ?s19) = [?c1, ?c9]
      \<and> lastPairRef ?s19 = None"
    by code_simp
  have m12: "map (\<lambda>c. if c = ?c1 \<or> c = ?c2
                     then (if card_value ?c1 = card_value ?c2 then c\<lparr>matched := True\<rparr>
                           else c\<lparr>flipped := False\<rparr>)
                     else c) (deck ?s12) = zeroDeal [] []"
    by code_simp
  have m19: "map (\<lambda>c. if c = ?c1 \<or> c = ?c9
                     then (if card_value ?c1 = card_value ?c9 then c\<lparr>matched := True\<rparr>
                           else c\<lparr>flipped := False\<rparr>)
                     else c) (deck ?s19) = zeroDeal [] [1, 9]"
    by code_simp
  from t have r: "\<And>st a b. distinct (map card_id (deck st)) \<and> flippedNow (deck st) = [a, b]
      \<and> lastPairRef st = None \<Longrightarrow>
      \<exists>st1. pairEffect st = Inr st1
         \<and> deck (resolveTimeout st1)
             = map (\<lambda>c. if c = a \<or> c = b
                         then (if card_value a = card_value b then c\<lparr>matched := True\<rparr>
                               else c\<lparr>flipped := False\<rparr>)
                         else c) (deck st)"
    by blast
  have "\<exists>st1. pairEffect ?s12 = Inr st1 \<and> deck (resolveTimeout st1) = zeroDeal [] []"
    using r[OF d12] unfolding m12 .
  moreover have "\<exists>st1. pairEffect ?s19 = Inr st1 \<and> deck (resolveTimeout st1) = zeroDeal [] [1, 9]"
    using r[OF d19] unfolding m19 .
  ultimately show ?thesis
    using valid_rnd_zero len deal by blast
qed

section \<open>Tanks: what a bullet changes\<close>

lemma findIndex_SomeD:
  "findIndex P ts = Some i \<Longrightarrow> i < length ts \<and> P (ts ! i) \<and> (\<forall>j<i. \<not> P (ts ! j))"
proof (induction ts arbitrary: i)
  case Nil
  then show ?case by simp
next
  case (Cons t ts)
  show ?case
  proof (cases "P t")
    case True
    with Cons.prems show ?thesis by simp
  next
    case False
    with Cons.prems obtain k where k: "findIndex P ts = Some k" "i = Suc k"
      by (auto split: option.splits)
    from Cons.IH[OF k(1)] False show ?thesis
      by (auto simp: k(2) less_Suc_eq_0_disj)
  qed
qed

lemma dropPowerUp_frame:
  "terrainRef (dropPowerUp x y w) = terrainRef w"
  "terrain (dropPowerUp x y w) = terrain w"
  "state (dropPowerUp x y w) = state w"
  "tanksRef (dropPowerUp x y w) = tanksRef w"
  "tanks (dropPowerUp x y w) = tanks w"
  "power (dropPowerUp x y w) = power w"
  by (simp_all add: dropPowerUp_def mathRandom_def split: prod.splits)

lemma clearCell_length:
  "clearCell t x y = Inr t' \<Longrightarrow> length t' = length t"
  by (auto simp: clearCell_def split: if_splits)

lemma cellAt_has_rows:
  assumes "has_rows t" "0 \<le> y" "y < GRID_tanks"
  shows "\<exists>c. cellAt t x y = Inr c"
  using assms by (auto simp: cellAt_def has_rows_def)

lemma clearCell_has_rows:
  assumes "has_rows t" "0 \<le> y" "y < GRID_tanks"
  shows "\<exists>t'. clearCell t x y = Inr t'"
  using assms by (auto simp: clearCell_def has_rows_def)

lemma damageAt_frame:
  assumes "damageAt x y ownr w = Inr (res, w')"
  shows "terrainRef w' = terrainRef w"
    and "length (terrain w') = length (terrain w)"
    and "gs_running (state w') \<Longrightarrow> gs_running (state w)"
  using assms
  by (auto simp: damageAt_def Let_def dropPowerUp_frame dest: clearCell_length
           split: if_splits sum.splits option.splits)


lemma damageAt_total:
  assumes "has_rows (terrainRef w)" "has_rows (terrain w)"
  shows "\<exists>res w'. damageAt x y ownr w = Inr (res, w')"
proof (cases "x < 0 \<or> x \<ge> GRID_tanks \<or> y < 0 \<or> y \<ge> GRID_tanks")
  case True
  then show ?thesis by (simp add: damageAt_def)
next
  case False
  then obtain c t' where "cellAt (terrainRef w) x y = Inr c" "clearCell (terrain w) x y = Inr t'"
    using cellAt_has_rows[OF assms(1), of y x] clearCell_has_rows[OF assms(2), of y x] by auto
  then show ?thesis
    using False by (auto simp: damageAt_def Let_def split: option.splits)
qed

lemma damageAt_base:
  assumes "0 \<le> x" "x < GRID_tanks" "0 \<le> y" "y < GRID_tanks"
    "cellAt (terrainRef w) x y = Inr (Some Base)"
  shows "damageAt x y ownr w
       = Inr (Hit, w\<lparr>state := (state w)\<lparr>gs_running := False, gs_paused := False\<rparr>\<rparr>)"
  using assms by (simp add: damageAt_def)

lemma same_side:
  "side t = ownr \<Longrightarrow> (ownr = Enemy \<and> side t = Enemy) \<or> (ownr = Player \<and> side t = Player)"
  by (cases ownr) auto

lemma damageAt_friendly:
  assumes "findIndex (\<lambda>t. alive t \<and> tank_x t = x \<and> tank_y t = y) (tanksRef w) = Some i"
    "side (tanksRef w ! i) = ownr" "damageAt x y ownr w = Inr (res, w')"
  shows "res \<noteq> NoDamage \<and> tanksRef w' = tanksRef w \<and> tanks w' = tanks w
           \<and> gs_lives (state w') = gs_lives (state w) \<and> gs_score (state w') = gs_score (state w)
           \<and> power w' = power w"
  using assms(1,3) same_side[OF assms(2)]
  by (auto simp: damageAt_def Let_def split: if_splits sum.splits)

lemma damageAt_friendly_blocked:
  assumes "findIndex (\<lambda>t. alive t \<and> tank_x t = x \<and> tank_y t = y) (tanksRef w) = Some i"
    "side (tanksRef w ! i) = ownr" "has_rows (terrainRef w)"
    "cellAt (terrainRef w) x y \<noteq> Inr (Some Brick)" "cellAt (terrainRef w) x y \<noteq> Inr (Some Base)"
  shows "damageAt x y ownr w = Inr (Blocked, w)"
proof (cases "x < 0 \<or> x \<ge> GRID_tanks \<or> y < 0 \<or> y \<ge> GRID_tanks")
  case True
  then show ?thesis by (simp add: damageAt_def)
next
  case False
  then obtain c where c: "cellAt (terrainRef w) x y = Inr c"
    using cellAt_has_rows[OF assms(3), of y x] by auto
  then show ?thesis
    using False assms(1,4,5) same_side[OF assms(2)] by (simp add: damageAt_def Let_def)
qed

lemma advanceBullet_at:
  assumes "bulletTarget b = (nx, ny)"
  shows "advanceBullet b w =
     (if \<not> active b then Inr ([], w)
      else (case damageAt nx ny (owner b) w of
              Inl e \<Rightarrow> Inl e
            | Inr (result, w') \<Rightarrow>
                if result = Blocked \<or> result = Hit then Inr ([], w')
                else Inr ([b\<lparr>bullet_x := nx, bullet_y := ny\<rparr>], w')))"
proof -
  obtain dx dy where d: "dirDelta (bullet_dir b) = (dx, dy)"
    by (cases "dirDelta (bullet_dir b)")
  then have n: "nx = bullet_x b + dx" "ny = bullet_y b + dy"
    using assms by (simp_all add: bulletTarget_def)
  show ?thesis
    unfolding n advanceBullet_def d Let_def prod.case by (rule refl)
qed

lemmas advanceBullet_unfold = advanceBullet_at[OF surjective_pairing]

lemma advanceBullet_frame:
  assumes "advanceBullet b w = Inr (added, w')"
  shows "terrainRef w' = terrainRef w"
    and "length (terrain w') = length (terrain w)"
    and "gs_running (state w') \<Longrightarrow> gs_running (state w)"
    and "bullet_id ` set added \<subseteq> {bullet_id b}"
  using assms damageAt_frame[of "fst (bulletTarget b)" "snd (bulletTarget b)" "owner b" w]
  by (auto simp: advanceBullet_unfold split: if_splits sum.splits prod.splits)

lemma advanceBullet_total:
  assumes "has_rows (terrainRef w)" "has_rows (terrain w)"
  shows "\<exists>added w'. advanceBullet b w = Inr (added, w')"
  using damageAt_total[OF assms, of "fst (bulletTarget b)" "snd (bulletTarget b)" "owner b"]
  by (auto simp: advanceBullet_unfold)

lemma advanceBullets_frame:
  assumes "advanceBullets prev acc w = Inr (next, w')"
  shows "terrainRef w' = terrainRef w \<and> length (terrain w') = length (terrain w)
       \<and> (gs_running (state w') \<longrightarrow> gs_running (state w))
       \<and> bullet_id ` set next \<subseteq> bullet_id ` set acc \<union> bullet_id ` set prev"
  using assms
proof (induction prev arbitrary: acc w)
  case Nil
  then show ?case by simp
next
  case (Cons b prev)
  from Cons.prems obtain added w1 where 1: "advanceBullet b w = Inr (added, w1)"
    and 2: "advanceBullets prev (acc @ added) w1 = Inr (next, w')"
    by (auto split: sum.splits)
  note f = advanceBullet_frame[OF 1]
  note ih = Cons.IH[OF 2]
  have "bullet_id ` set next \<subseteq> bullet_id ` set acc \<union> bullet_id ` set (b # prev)"
    using ih f(4) by (simp add: image_Un) blast
  moreover have "terrainRef w' = terrainRef w" "length (terrain w') = length (terrain w)"
    "gs_running (state w') \<longrightarrow> gs_running (state w)"
    using ih f(1,2,3) by auto
  ultimately show ?case by blast
qed

lemma advanceBullets_total:
  assumes "has_rows (terrainRef w)" "has_rows (terrain w)"
  shows "\<exists>next w'. advanceBullets prev acc w = Inr (next, w')"
  using assms
proof (induction prev arbitrary: acc w)
  case Nil
  then show ?case by simp
next
  case (Cons b prev)
  from advanceBullet_total[OF Cons.prems, of b] obtain added w1
    where 1: "advanceBullet b w = Inr (added, w1)" by blast
  have "has_rows (terrainRef w1)" "has_rows (terrain w1)"
    using advanceBullet_frame(1,2)[OF 1] Cons.prems by (simp_all add: has_rows_def)
  from Cons.IH[OF this, of "acc @ added"] show ?case
    by (simp add: 1)
qed

lemma advanceBullets_append:
  "advanceBullets (xs @ ys) acc w =
     (case advanceBullets xs acc w of
        Inl e \<Rightarrow> Inl e
      | Inr (mid, w1) \<Rightarrow> advanceBullets ys mid w1)"
  by (induction xs arbitrary: acc w) (auto split: sum.splits)

section \<open>Tanks: friendly fire and the base\<close>

lemma example_facts:
  "has_rows (terrainRef exampleWorld)" "has_rows (terrain exampleWorld)"
  "cellAt (terrainRef exampleWorld) 3 4 = Inr (Some Empty)"
  "cellAt (terrainRef exampleWorld) 7 14 = Inr (Some Base)"
  "findIndex (\<lambda>t. alive t \<and> tank_x t = 3 \<and> tank_y t = 4) (tanksRef exampleWorld) = Some 2"
  "side (tanksRef exampleWorld ! 2) = Enemy"
  "bulletTarget friendlyBullet = (3, 4)" "bulletTarget baseBullet = (7, 14)"
  "active friendlyBullet" "owner friendlyBullet = Enemy" "active baseBullet"
  "distinct (map bullet_id ([friendlyBullet] @ baseBullet # []))"
  by (simp_all add: exampleWorld_def exampleTerrain_def exampleTanks_def has_rows_def GRID_tanks_def
      cellAt_def nth_append friendlyBullet_def baseBullet_def bulletTarget_def dirDelta_def)

text \<open>
  Claim C4. When the first live tank that \<^verbatim>\<open>damageAt\<close> finds at the cell has the side of
  the bullet's owner, the bullet is removed (the result is never \<^verbatim>\<open>'none'\<close>) and no tank,
  life, score or shield changes, whatever the terrain of the cell. When the bullet
  meets the tank itself, that is when the cell holds neither a brick nor the base, the
  result is \<^verbatim>\<open>'blocked'\<close> and the whole world, terrain included, is as before; the bullet
  loop adds nothing to \<^verbatim>\<open>next\<close> for this bullet.
\<close>

theorem friendly_fire_immunity:
  assumes "findIndex (\<lambda>t. alive t \<and> tank_x t = x \<and> tank_y t = y) (tanksRef w) = Some i"
    and "side (tanksRef w ! i) = ownr"
  shows "(\<forall>res w'. damageAt x y ownr w = Inr (res, w') \<longrightarrow>
            res \<noteq> NoDamage \<and> tanksRef w' = tanksRef w \<and> tanks w' = tanks w
            \<and> gs_lives (state w') = gs_lives (state w) \<and> gs_score (state w') = gs_score (state w)
            \<and> power w' = power w)
       \<and> (has_rows (terrainRef w) \<and> cellAt (terrainRef w) x y \<noteq> Inr (Some Brick)
            \<and> cellAt (terrainRef w) x y \<noteq> Inr (Some Base) \<longrightarrow>
            damageAt x y ownr w = Inr (Blocked, w)
            \<and> (\<forall>b. active b \<and> bulletTarget b = (x, y) \<and> owner b = ownr \<longrightarrow>
                  advanceBullet b w = Inr ([], w)))"
proof (intro conjI allI impI)
  fix res w'
  assume "damageAt x y ownr w = Inr (res, w')"
  from damageAt_friendly[OF assms this]
  show "res \<noteq> NoDamage" "tanksRef w' = tanksRef w" "tanks w' = tanks w"
    "gs_lives (state w') = gs_lives (state w)" "gs_score (state w') = gs_score (state w)"
    "power w' = power w"
    by simp_all
next
  assume h: "has_rows (terrainRef w) \<and> cellAt (terrainRef w) x y \<noteq> Inr (Some Brick)
            \<and> cellAt (terrainRef w) x y \<noteq> Inr (Some Base)"
  then show d: "damageAt x y ownr w = Inr (Blocked, w)"
    using damageAt_friendly_blocked[OF assms] by blast
  fix b
  assume "active b \<and> bulletTarget b = (x, y) \<and> owner b = ownr"
  then show "advanceBullet b w = Inr ([], w)"
    using d by (simp add: advanceBullet_at[of b x y])
qed

text \<open>
  In the example world the bullet of the first enemy reaches the cell of the second
  enemy: it is dropped and the world is the same.
\<close>

theorem friendly_fire_immunity_witness:
  "findIndex (\<lambda>t. alive t \<and> tank_x t = 3 \<and> tank_y t = 4) (tanksRef exampleWorld) = Some 2
   \<and> side (tanksRef exampleWorld ! 2) = Enemy \<and> owner friendlyBullet = Enemy
   \<and> bulletTarget friendlyBullet = (3, 4)
   \<and> damageAt 3 4 Enemy exampleWorld = Inr (Blocked, exampleWorld)
   \<and> advanceBullet friendlyBullet exampleWorld = Inr ([], exampleWorld)"
proof -
  note t = friendly_fire_immunity[OF example_facts(5,6)]
  have c: "has_rows (terrainRef exampleWorld)
      \<and> cellAt (terrainRef exampleWorld) 3 4 \<noteq> Inr (Some Brick)
      \<and> cellAt (terrainRef exampleWorld) 3 4 \<noteq> Inr (Some Base)"
    unfolding example_facts(3) using example_facts(1) by simp
  from t[THEN conjunct2, rule_format, OF c]
  have d: "damageAt 3 4 Enemy exampleWorld = Inr (Blocked, exampleWorld)"
    and a: "\<forall>b. active b \<and> bulletTarget b = (3, 4) \<and> owner b = Enemy \<longrightarrow>
          advanceBullet b exampleWorld = Inr ([], exampleWorld)"
    by blast+
  have "advanceBullet friendlyBullet exampleWorld = Inr ([], exampleWorld)"
    using a example_facts(9,7,10) by blast
  then show ?thesis
    using d example_facts(5,6,10,7) by blast
qed

text \<open>
  Claim C5. A bullet that advances into the cell of the base is dropped and sets
  \<^verbatim>\<open>running\<close> (and \<^verbatim>\<open>paused\<close>) to false; nothing else changes and the lives play no part.
  In the bullet loop of a tick that holds such a bullet, on a terrain with all its rows,
  the loop returns, \<^verbatim>\<open>running\<close> is false at its end, and no bullet of \<^verbatim>\<open>next\<close> is this
  bullet.
\<close>

theorem base_hit_ends_game:
  assumes "active b" "bulletTarget b = (x, y)"
    and "0 \<le> x" "x < GRID_tanks" "0 \<le> y" "y < GRID_tanks"
    and "cellAt (terrainRef w) x y = Inr (Some Base)"
  shows "advanceBullet b w
           = Inr ([], w\<lparr>state := (state w)\<lparr>gs_running := False, gs_paused := False\<rparr>\<rparr>)
       \<and> (\<forall>before after. has_rows (terrainRef w) \<and> has_rows (terrain w)
              \<and> distinct (map bullet_id (before @ b # after)) \<longrightarrow>
            (\<exists>next w'. advanceBullets (before @ b # after) [] w = Inr (next, w')
               \<and> \<not> gs_running (state w') \<and> bullet_id b \<notin> bullet_id ` set next))"
proof (intro conjI allI impI)
  show "advanceBullet b w
           = Inr ([], w\<lparr>state := (state w)\<lparr>gs_running := False, gs_paused := False\<rparr>\<rparr>)"
    using assms(1) damageAt_base[OF assms(3-7)] by (simp add: advanceBullet_at[OF assms(2)])
next
  fix before after
  assume h: "has_rows (terrainRef w) \<and> has_rows (terrain w)
              \<and> distinct (map bullet_id (before @ b # after))"
  then have rows: "has_rows (terrainRef w)" "has_rows (terrain w)" by simp_all
  from advanceBullets_total[OF rows, of before "[]"] obtain mid w1
    where 1: "advanceBullets before [] w = Inr (mid, w1)" by blast
  note f1 = advanceBullets_frame[OF 1]
  have rows1: "has_rows (terrainRef w1)" "has_rows (terrain w1)"
    using f1 rows by (simp_all add: has_rows_def)
  have base1: "cellAt (terrainRef w1) x y = Inr (Some Base)"
    using f1 assms(7) by simp
  let ?w2 = "w1\<lparr>state := (state w1)\<lparr>gs_running := False, gs_paused := False\<rparr>\<rparr>"
  have 2: "advanceBullet b w1 = Inr ([], ?w2)"
    using assms(1) damageAt_base[OF assms(3-6) base1] by (simp add: advanceBullet_at[OF assms(2)])
  have rows2: "has_rows (terrainRef ?w2)" "has_rows (terrain ?w2)"
    using rows1 by simp_all
  from advanceBullets_total[OF rows2, of after mid] obtain "next" w'
    where 3: "advanceBullets after mid ?w2 = Inr (next, w')" by blast
  note f3 = advanceBullets_frame[OF 3]
  have all: "advanceBullets (before @ b # after) [] w = Inr (next, w')"
    by (simp add: advanceBullets_append 1 2 3)
  have "\<not> gs_running (state w')"
    using f3 by auto
  moreover have "bullet_id b \<notin> bullet_id ` set next"
  proof
    assume "bullet_id b \<in> bullet_id ` set next"
    then have "bullet_id b \<in> bullet_id ` set mid \<union> bullet_id ` set after"
      using f3 by blast
    then have "bullet_id b \<in> bullet_id ` set before \<union> bullet_id ` set after"
      using f1 by auto
    then show False
      using h by auto
  qed
  ultimately show "\<exists>next w'. advanceBullets (before @ b # after) [] w = Inr (next, w')
               \<and> \<not> gs_running (state w') \<and> bullet_id b \<notin> bullet_id ` set next"
    using all by blast
qed

text \<open>
  In the example world, with three lives left, the bullet above the base ends the game,
  alone and after the bullet that met the second enemy.
\<close>

theorem base_hit_ends_game_witness:
  "active baseBullet \<and> bulletTarget baseBullet = (7, 14)
   \<and> cellAt (terrainRef exampleWorld) 7 14 = Inr (Some Base)
   \<and> gs_lives (state exampleWorld) = 3 \<and> gs_running (state exampleWorld)
   \<and> advanceBullet baseBullet exampleWorld
       = Inr ([], exampleWorld\<lparr>state := (state exampleWorld)\<lparr>gs_running := False, gs_paused := False\<rparr>\<rparr>)
   \<and> (\<exists>next w'. advanceBullets [friendlyBullet, baseBullet] [] exampleWorld = Inr (next, w')
         \<and> \<not> gs_running (state w') \<and> bullet_id baseBullet \<notin> bullet_id ` set next)"
proof -
  have g: "(0::int) \<le> 7" "(7::int) < GRID_tanks" "(0::int) \<le> 14" "(14::int) < GRID_tanks"
    by (simp_all add: GRID_tanks_def)
  note t = base_hit_ends_game[OF example_facts(11) example_facts(8) g example_facts(4)]
  have l: "gs_lives (state exampleWorld) = 3 \<and> gs_running (state exampleWorld)"
    by (simp add: exampleWorld_def)
  have "\<exists>next w'. advanceBullets ([friendlyBullet] @ baseBullet # []) [] exampleWorld = Inr (next, w')
         \<and> \<not> gs_running (state w') \<and> bullet_id baseBullet \<notin> bullet_id ` set next"
    using t[THEN conjunct2, rule_format, of "[friendlyBullet]" "[]"] example_facts(1,2,12) by blast
  then show ?thesis
    using t[THEN conjunct1] l example_facts(11,8,4) by simp
qed

section \<open>The preference store: which accesses are guarded\<close>

lemma tanks_persist_never_throws: "\<exists>s'. tanks_persist s k v = Inr s'"
  by (cases s) (simp_all add: tanks_persist_def setItem_def)

lemma store_available_reads:
  "cards_bestRead toNumber (Store m) p knd
     = Inr (case m (bestKey p knd) of None \<Rightarrow> Num 0 | Some v \<Rightarrow> if v = [] then Num 0 else toNumber v)"
  "tanks_comfortRead (Store m)
     = Inr (case m ''tanks_comfort'' of None \<Rightarrow> True | Some v \<Rightarrow> v = ''true'')"
  by (simp_all add: cards_bestRead_def tanks_comfortRead_def getItem_def split: option.splits)

text \<open>
  Claim C9 at a store that throws. The two writes of Tanks are caught: they return with
  the store as it was. Every other access lets the exception out: the two reads in the
  body of the Cards page, the writes of its win effect, and the two reads that give
  Tanks its initial \<^verbatim>\<open>comfort\<close> and \<^verbatim>\<open>soundOn\<close>.
\<close>

theorem storage_failure_not_caught:
  "tanks_comfortWrite Denied True = Inr Denied
   \<and> tanks_soundWrite Denied False = Inr Denied
   \<and> cards_bestRead toNumber Denied 8 ''moves'' = Inl SecurityError
   \<and> cards_renderReads toNumber Denied 8 = Inl SecurityError
   \<and> cards_bestWrite Denied 8 True 12 40 (Num 0) (Num 0) = Inl SecurityError
   \<and> tanks_comfortRead Denied = Inl SecurityError
   \<and> tanks_soundRead Denied = Inl SecurityError"
  by (simp add: tanks_comfortWrite_def tanks_soundWrite_def tanks_persist_def setItem_def
      cards_bestRead_def cards_renderReads_def cards_bestWrite_def improves_def bindE_def
      tanks_comfortRead_def tanks_soundRead_def getItem_def)

end
